theory Spec2Isabelle
  imports Main "HOL-Library.AList" "HOL-Library.Product_Lexorder"
begin

section \<open>The crossword CSP solver of generate.py\<close>

text \<open>
  The development embeds the class \<open>CrosswordCreator\<close> of \<open>generate.py\<close>.

  Conventions of the embedding.
  \<^item> A Python \<open>set\<close> of words is a list; iterating the set walks the list, and
    a set difference \<open>s - t\<close> keeps the order of \<open>s\<close>.
  \<^item> A Python \<open>dict\<close> is an association list in insertion order
    (\<open>AList.update\<close> keeps the position of an existing key and appends a new one,
    \<open>AList.delete\<close> is \<open>del\<close>).
  \<^item> A raised exception is \<open>Inl\<close> of an \<open>error\<close>; a normal return is \<open>Inr\<close>.
  \<^item> The two searches recurse on a fuel argument (the depth of the Python call
    stack that is still available); running out of it is the error \<open>OutOfFuel\<close>.
  \<^item> \<open>self.domains\<close> is a reference into a store of dict objects, since
    \<open>backtrack_ac3\<close> rebinds it to a deep copy that it goes on mutating.
\<close>

subsection \<open>The puzzle model\<close>

datatype direction = ACROSS | DOWN

datatype variable = Variable (vi: nat) (vj: nat) (vdirection: direction) (vlength: nat)

text \<open>
  The module \<open>crossword\<close> is imported by \<open>generate.py\<close> and is not part of the
  sources at hand: the puzzle is a parameter. \<open>overlaps\<close> is the dict
  \<open>crossword.overlaps\<close>: a missing key is \<open>None\<close>, the entry \<open>None\<close> (no overlap)
  is \<open>Some None\<close>, the entry \<open>(i, j)\<close> is \<open>Some (Some (i, j))\<close>.
\<close>

record crossword =
  variables :: "variable list"
  words :: "string list"
  overlaps :: "(variable \<times> variable) \<rightharpoonup> (nat \<times> nat) option"

text \<open>
  Modelled from the spec: the method \<open>crossword.neighbors\<close> is not among the sources.
  The spec's data model has it as "for a slot, the set of other slots with a defined
  (non-"no overlap") Overlap Relation".
\<close>

definition neighbors :: "crossword \<Rightarrow> variable \<Rightarrow> variable list" where
  "neighbors cw var =
     filter (\<lambda>v. v \<noteq> var \<and>
                  (case overlaps cw (v, var) of Some (Some p) \<Rightarrow> True | _ \<Rightarrow> False))
       (variables cw)"

datatype error = KeyError | IndexError | OutOfFuel

type_synonym domains = "(variable \<times> string list) list"

type_synonym assignment = "(variable \<times> string) list"

text \<open>\<open>self.domains[x]\<close> as an expression.\<close>

definition lookup :: "domains \<Rightarrow> variable \<Rightarrow> error + string list" where
  "lookup d x = (case map_of d x of None \<Rightarrow> Inl KeyError | Some ws \<Rightarrow> Inr ws)"

subsection \<open>Node consistency\<close>

definition enforce_node_consistency :: "domains \<Rightarrow> domains" where
  "enforce_node_consistency d =
     map (\<lambda>(domain, vals). (domain, filter (\<lambda>val. length val = vlength domain) vals)) d"

subsection \<open>Arc revision\<close>

definition overlap_satisfied ::
  "crossword \<Rightarrow> variable \<Rightarrow> variable \<Rightarrow> string \<Rightarrow> string \<Rightarrow> error + bool" where
  "overlap_satisfied cw x y val_x val_y =
     (case overlaps cw (x, y) of
        None \<Rightarrow> Inl KeyError
      | Some None \<Rightarrow> Inr True
      | Some (Some (index_x, index_y)) \<Rightarrow>
          if index_x < length val_x
          then (if index_y < length val_y
                then Inr (val_x ! index_x = val_y ! index_y)
                else Inl IndexError)
          else Inl IndexError)"

text \<open>The inner loop of \<open>revise\<close>: the flag \<open>consistent\<close> after scanning \<open>y\<close>'s domain.\<close>

fun supported ::
  "crossword \<Rightarrow> variable \<Rightarrow> variable \<Rightarrow> string \<Rightarrow> string list \<Rightarrow> error + bool" where
  "supported cw x y val_x [] = Inr False"
| "supported cw x y val_x (val_y # rest) =
     (if val_x \<noteq> val_y
      then (case overlap_satisfied cw x y val_x val_y of
              Inl e \<Rightarrow> Inl e
            | Inr ok \<Rightarrow> if ok then Inr True else supported cw x y val_x rest)
      else supported cw x y val_x rest)"

text \<open>The outer loop of \<open>revise\<close>: the words collected in \<open>to_remove\<close>.\<close>

fun revise_scan ::
  "crossword \<Rightarrow> domains \<Rightarrow> variable \<Rightarrow> variable \<Rightarrow> string list \<Rightarrow> error + string list" where
  "revise_scan cw d x y [] = Inr []"
| "revise_scan cw d x y (val_x # rest) =
     (case lookup d y of
        Inl e \<Rightarrow> Inl e
      | Inr dy \<Rightarrow>
          (case supported cw x y val_x dy of
             Inl e \<Rightarrow> Inl e
           | Inr c \<Rightarrow>
               (case revise_scan cw d x y rest of
                  Inl e \<Rightarrow> Inl e
                | Inr to_remove \<Rightarrow> Inr (if c then to_remove else val_x # to_remove))))"

definition revise ::
  "crossword \<Rightarrow> domains \<Rightarrow> variable \<Rightarrow> variable \<Rightarrow> error + (bool \<times> domains)" where
  "revise cw d x y =
     (case lookup d x of
        Inl e \<Rightarrow> Inl e
      | Inr dx \<Rightarrow>
          (case revise_scan cw d x y dx of
             Inl e \<Rightarrow> Inl e
           | Inr to_remove \<Rightarrow>
               Inr (to_remove \<noteq> [],
                    AList.update x (filter (\<lambda>w. w \<notin> set to_remove) dx) d)))"

subsection \<open>Arc consistency\<close>

definition all_arcs :: "domains \<Rightarrow> (variable \<times> variable) list" where
  "all_arcs d =
     concat (map (\<lambda>domain_1.
                    map (\<lambda>domain_2. (domain_1, domain_2))
                      (filter (\<lambda>domain_2. domain_1 \<noteq> domain_2) (map fst d)))
                 (map fst d))"

definition total_size :: "domains \<Rightarrow> nat" where
  "total_size d = sum_list (map (\<lambda>p. length (snd p)) d)"

text \<open>Facts about \<open>revise\<close> that the termination of the propagation loop rests on.\<close>

lemma total_size_update:
  "map_of d x = Some dx \<Longrightarrow>
   total_size (AList.update x ws d) + length dx = total_size d + length ws"
  by (induction d) (auto simp: total_size_def)

lemma revise_scan_subset:
  "revise_scan cw d x y vs = Inr to_remove \<Longrightarrow> set to_remove \<subseteq> set vs"
  by (induction vs arbitrary: to_remove) (auto split: sum.splits if_splits)

lemma revise_total_size:
  assumes "revise cw d x y = Inr (revised, d')"
  shows "total_size d' \<le> total_size d" and "revised \<Longrightarrow> total_size d' < total_size d"
proof -
  from assms obtain dx to_remove where
    dx: "map_of d x = Some dx" and
    scan: "revise_scan cw d x y dx = Inr to_remove" and
    rev: "revised = (to_remove \<noteq> [])" and
    d': "d' = AList.update x (filter (\<lambda>w. w \<notin> set to_remove) dx) d"
    by (auto simp: revise_def lookup_def split: option.splits sum.splits)
  let ?kept = "filter (\<lambda>w. w \<notin> set to_remove) dx"
  have eq: "total_size d' + length dx = total_size d + length ?kept"
    unfolding d' by (rule total_size_update [OF dx])
  have "length ?kept \<le> length dx" by simp
  with eq show "total_size d' \<le> total_size d" by linarith
  show "total_size d' < total_size d" if "revised"
  proof -
    from that rev obtain w where w: "w \<in> set to_remove" by (cases to_remove) auto
    with revise_scan_subset [OF scan] have "w \<in> set dx" by blast
    with w have "length ?kept < length dx" by (intro length_filter_less) auto
    with eq show ?thesis by linarith
  qed
qed

text \<open>
  The \<open>while arcs\<close> loop. The Python list \<open>arcs\<close> is used as a stack
  (\<open>pop()\<close> takes its last element, \<open>append\<close> adds after it); the model keeps
  it top first, so \<open>pop\<close> is the head and the arcs appended one by one end up
  reversed in front.
\<close>

function ac3_loop ::
  "crossword \<Rightarrow> domains \<Rightarrow> (variable \<times> variable) list \<Rightarrow> error + (bool \<times> domains)" where
  "ac3_loop cw d [] = Inr (True, d)"
| "ac3_loop cw d ((domain_x, domain_y) # arcs) =
     (case revise cw d domain_x domain_y of
        Inl e \<Rightarrow> Inl e
      | Inr (revised, d') \<Rightarrow>
          if revised
          then (case lookup d' domain_x of
                  Inl e \<Rightarrow> Inl e
                | Inr dx \<Rightarrow>
                    if dx = [] then Inr (False, d')
                    else ac3_loop cw d'
                           (rev (map (\<lambda>domain_z. (domain_z, domain_x))
                                  (filter (\<lambda>domain_z. domain_z \<noteq> domain_y)
                                     (neighbors cw domain_x))) @ arcs))
          else ac3_loop cw d' arcs)"
  by pat_completeness auto
termination
proof (relation "measures [\<lambda>(cw, d, arcs). total_size d, \<lambda>(cw, d, arcs). length arcs]")
  show "wf (measures [\<lambda>(cw, d, arcs). total_size d, \<lambda>(cw, d, arcs). length arcs])"
    by simp
next
  fix cw d domain_x domain_y arcs x2 revised d' x2a
  assume "revise cw d domain_x domain_y = Inr x2" "(revised, d') = x2" "revised"
  then have "total_size d' < total_size d"
    using revise_total_size(2) [of cw d domain_x domain_y revised d'] by simp
  then show "((cw, d', rev (map (\<lambda>domain_z. (domain_z, domain_x))
                  (filter (\<lambda>domain_z. domain_z \<noteq> domain_y) (neighbors cw domain_x))) @ arcs),
              (cw, d, (domain_x, domain_y) # arcs))
             \<in> measures [\<lambda>(cw, d, arcs). total_size d, \<lambda>(cw, d, arcs). length arcs]"
    by simp
next
  fix cw d domain_x domain_y arcs x2 revised d'
  assume "revise cw d domain_x domain_y = Inr x2" "(revised, d') = x2" "\<not> revised"
  then have "total_size d' \<le> total_size d"
    using revise_total_size(1) [of cw d domain_x domain_y revised d'] by simp
  then show "((cw, d', arcs), (cw, d, (domain_x, domain_y) # arcs))
             \<in> measures [\<lambda>(cw, d, arcs). total_size d, \<lambda>(cw, d, arcs). length arcs]"
    by auto
qed

text \<open>
  \<open>ac3(arcs=None)\<close>: the test \<open>not arcs\<close> holds for \<open>None\<close> and for the
  empty list alike.
\<close>

definition ac3 ::
  "crossword \<Rightarrow> domains \<Rightarrow> (variable \<times> variable) list option \<Rightarrow> error + (bool \<times> domains)" where
  "ac3 cw d arcs =
     (case arcs of
        None \<Rightarrow> ac3_loop cw d (rev (all_arcs d))
      | Some [] \<Rightarrow> ac3_loop cw d (rev (all_arcs d))
      | Some (a # as) \<Rightarrow> ac3_loop cw d (rev (a # as)))"

subsection \<open>The mutable state\<close>

text \<open>
  \<open>store\<close> holds the dict objects allocated so far; \<open>self_domains\<close> is the
  address that the attribute \<open>self.domains\<close> holds. The two module globals are
  counters that every call of a search and every tested word increment.
\<close>

datatype state =
  State (store: "domains list") (self_domains: nat) (BACKTRACK_COUNTER: nat) (WORDS_TESTED: nat)

definition cur :: "state \<Rightarrow> domains" where
  "cur st = store st ! self_domains st"

text \<open>A mutation of the dict object that \<open>self.domains\<close> refers to.\<close>

definition put :: "state \<Rightarrow> domains \<Rightarrow> state" where
  "put st d =
     State ((store st)[self_domains st := d]) (self_domains st)
       (BACKTRACK_COUNTER st) (WORDS_TESTED st)"

text \<open>\<open>deepcopy(self.domains)\<close>: a new object, whose address is returned.\<close>

definition deepcopy :: "state \<Rightarrow> state \<times> nat" where
  "deepcopy st =
     (State (store st @ [cur st]) (self_domains st) (BACKTRACK_COUNTER st) (WORDS_TESTED st),
      length (store st))"

text \<open>The assignment \<open>self.domains = domains_copy\<close>: the attribute is rebound, no dict is copied.\<close>

definition rebind :: "state \<Rightarrow> nat \<Rightarrow> state" where
  "rebind st a = State (store st) a (BACKTRACK_COUNTER st) (WORDS_TESTED st)"

text \<open>\<open>BACKTRACK_COUNTER += 1\<close> and \<open>WORDS_TESTED += 1\<close>.\<close>

definition count_call :: "state \<Rightarrow> state" where
  "count_call st =
     State (store st) (self_domains st) (BACKTRACK_COUNTER st + 1) (WORDS_TESTED st)"

definition count_word :: "state \<Rightarrow> state" where
  "count_word st =
     State (store st) (self_domains st) (BACKTRACK_COUNTER st) (WORDS_TESTED st + 1)"

text \<open>\<open>__init__\<close>: every slot starts with a copy of the whole word list.\<close>

definition init :: "crossword \<Rightarrow> state" where
  "init cw = State [map (\<lambda>var. (var, words cw)) (variables cw)] 0 0 0"

subsection \<open>Completeness and consistency of an assignment\<close>

definition assignment_complete :: "domains \<Rightarrow> assignment \<Rightarrow> bool" where
  "assignment_complete d assignment =
     list_all (\<lambda>domain. domain \<in> fst ` set assignment) (map fst d)"

text \<open>The loop of \<open>consistent\<close> over the neighbours of one assigned slot.\<close>

fun consistent_neighbors ::
  "crossword \<Rightarrow> assignment \<Rightarrow> variable \<Rightarrow> string \<Rightarrow> variable list \<Rightarrow> error + bool" where
  "consistent_neighbors cw assignment variable_x value_x [] = Inr True"
| "consistent_neighbors cw assignment variable_x value_x (variable_y # rest) =
     (case map_of assignment variable_y of
        None \<Rightarrow> consistent_neighbors cw assignment variable_x value_x rest
      | Some value_y \<Rightarrow>
          (case overlap_satisfied cw variable_x variable_y value_x value_y of
             Inl e \<Rightarrow> Inl e
           | Inr ok \<Rightarrow>
               if ok then consistent_neighbors cw assignment variable_x value_x rest
               else Inr False))"

text \<open>The loop of \<open>consistent\<close> over the assigned slots, with the list \<open>processed\<close>.\<close>

fun consistent_loop ::
  "crossword \<Rightarrow> assignment \<Rightarrow> string list \<Rightarrow> (variable \<times> string) list \<Rightarrow> error + bool" where
  "consistent_loop cw assignment processed [] = Inr True"
| "consistent_loop cw assignment processed ((variable_x, value_x) # rest) =
     (if value_x \<in> set processed then Inr False
      else if length value_x \<noteq> vlength variable_x then Inr False
      else (case consistent_neighbors cw assignment variable_x value_x
                   (neighbors cw variable_x) of
              Inl e \<Rightarrow> Inl e
            | Inr ok \<Rightarrow>
                if ok then consistent_loop cw assignment (processed @ [value_x]) rest
                else Inr False))"

definition consistent :: "crossword \<Rightarrow> assignment \<Rightarrow> error + bool" where
  "consistent cw assignment = consistent_loop cw assignment [] assignment"

subsection \<open>Heuristics\<close>

text \<open>How many words of one neighbour's domain a value rules out.\<close>

fun ruleout_vals ::
  "crossword \<Rightarrow> variable \<Rightarrow> variable \<Rightarrow> string \<Rightarrow> string list \<Rightarrow> error + nat" where
  "ruleout_vals cw var other_var val [] = Inr 0"
| "ruleout_vals cw var other_var val (other_val # rest) =
     (case overlap_satisfied cw var other_var val other_val of
        Inl e \<Rightarrow> Inl e
      | Inr ok \<Rightarrow>
          (case ruleout_vals cw var other_var val rest of
             Inl e \<Rightarrow> Inl e
           | Inr n \<Rightarrow> Inr (if ok then n else Suc n)))"

text \<open>The same, summed over the neighbours of \<open>var\<close>.\<close>

fun ruleout_vars ::
  "crossword \<Rightarrow> domains \<Rightarrow> variable \<Rightarrow> string \<Rightarrow> variable list \<Rightarrow> error + nat" where
  "ruleout_vars cw d var val [] = Inr 0"
| "ruleout_vars cw d var val (other_var # rest) =
     (case lookup d other_var of
        Inl e \<Rightarrow> Inl e
      | Inr other_vals \<Rightarrow>
          (case ruleout_vals cw var other_var val other_vals of
             Inl e \<Rightarrow> Inl e
           | Inr n \<Rightarrow>
               (case ruleout_vars cw d var val rest of
                  Inl e \<Rightarrow> Inl e
                | Inr m \<Rightarrow> Inr (n + m))))"

text \<open>The dict \<open>values_ruleout\<close> once the loops are over, as a list of items.\<close>

fun values_ruleout ::
  "crossword \<Rightarrow> domains \<Rightarrow> variable \<Rightarrow> string list \<Rightarrow> error + (string \<times> nat) list" where
  "values_ruleout cw d var [] = Inr []"
| "values_ruleout cw d var (val # rest) =
     (case ruleout_vars cw d var val (neighbors cw var) of
        Inl e \<Rightarrow> Inl e
      | Inr n \<Rightarrow>
          (case values_ruleout cw d var rest of
             Inl e \<Rightarrow> Inl e
           | Inr counts \<Rightarrow> Inr ((val, n) # counts)))"

text \<open>\<open>sorted\<close> is stable, as \<open>sort_key\<close> is. The argument \<open>assignment\<close> is never read.\<close>

definition order_domain_values ::
  "crossword \<Rightarrow> domains \<Rightarrow> variable \<Rightarrow> assignment \<Rightarrow> error + string list" where
  "order_domain_values cw d var assignment =
     (case lookup d var of
        Inl e \<Rightarrow> Inl e
      | Inr vals \<Rightarrow>
          (case values_ruleout cw d var vals of
             Inl e \<Rightarrow> Inl e
           | Inr counts \<Rightarrow> Inr (map fst (sort_key snd counts))))"

text \<open>
  The sort key of \<open>select_unassigned_variable\<close>. The slot is a key of the dict
  it was taken from, so the lookup cannot raise.
\<close>

definition mrv_key :: "crossword \<Rightarrow> domains \<Rightarrow> variable \<Rightarrow> nat \<times> int" where
  "mrv_key cw d x =
     (case map_of d x of None \<Rightarrow> 0 | Some ws \<Rightarrow> length ws, - int (length (neighbors cw x)))"

definition select_unassigned_variable ::
  "crossword \<Rightarrow> domains \<Rightarrow> assignment \<Rightarrow> error + variable" where
  "select_unassigned_variable cw d assignment =
     (case sort_key (mrv_key cw d)
             (filter (\<lambda>var. var \<notin> fst ` set assignment) (map fst d)) of
        [] \<Rightarrow> Inl IndexError
      | var # _ \<Rightarrow> Inr var)"

subsection \<open>The two searches\<close>

text \<open>\<open>if result:\<close> is false for \<open>None\<close> and for an empty dict.\<close>

definition truthy :: "assignment option \<Rightarrow> bool" where
  "truthy result = (case result of None \<Rightarrow> False | Some a \<Rightarrow> a \<noteq> [])"

text \<open>\<open>del assignment[variable]\<close>.\<close>

definition del :: "variable \<Rightarrow> assignment \<Rightarrow> error + assignment" where
  "del variable assignment =
     (if variable \<in> fst ` set assignment then Inr (AList.delete variable assignment)
      else Inl KeyError)"

text \<open>
  A search returns its result, the contents of the dict \<open>assignment\<close> (which it
  mutates in place and which is the object it returns on success) and the state.
\<close>

fun backtrack ::
    "nat \<Rightarrow> crossword \<Rightarrow> state \<Rightarrow> assignment \<Rightarrow>
     error + (assignment option \<times> assignment \<times> state)"
  and backtrack_loop ::
    "nat \<Rightarrow> crossword \<Rightarrow> state \<Rightarrow> assignment \<Rightarrow> variable \<Rightarrow> string list \<Rightarrow>
     error + (assignment option \<times> assignment \<times> state)" where
  "backtrack 0 cw st assignment = Inl OutOfFuel"
| "backtrack (Suc fuel) cw st0 assignment =
     (let st = count_call st0 in
      if assignment_complete (cur st) assignment then Inr (Some assignment, assignment, st)
      else (case select_unassigned_variable cw (cur st) assignment of
              Inl e \<Rightarrow> Inl e
            | Inr variable \<Rightarrow>
                (case order_domain_values cw (cur st) variable assignment of
                   Inl e \<Rightarrow> Inl e
                 | Inr vals \<Rightarrow> backtrack_loop fuel cw st assignment variable vals)))"
| "backtrack_loop fuel cw st assignment variable [] = Inr (None, assignment, st)"
| "backtrack_loop fuel cw st0 assignment0 variable (val # rest) =
     (let assignment = AList.update variable val assignment0;
          st = count_word st0 in
      case consistent cw assignment of
        Inl e \<Rightarrow> Inl e
      | Inr ok \<Rightarrow>
          if ok
          then (case backtrack fuel cw st assignment of
                  Inl e \<Rightarrow> Inl e
                | Inr (result, assignment', st') \<Rightarrow>
                    if truthy result then Inr (result, assignment', st')
                    else (case del variable assignment' of
                            Inl e \<Rightarrow> Inl e
                          | Inr assignment'' \<Rightarrow>
                              backtrack_loop fuel cw st' assignment'' variable rest))
          else (case del variable assignment of
                  Inl e \<Rightarrow> Inl e
                | Inr assignment'' \<Rightarrow>
                    backtrack_loop fuel cw st assignment'' variable rest))"

fun backtrack_ac3 ::
    "nat \<Rightarrow> crossword \<Rightarrow> state \<Rightarrow> assignment \<Rightarrow>
     error + (assignment option \<times> assignment \<times> state)"
  and backtrack_ac3_loop ::
    "nat \<Rightarrow> crossword \<Rightarrow> state \<Rightarrow> assignment \<Rightarrow> variable \<Rightarrow> nat \<Rightarrow> string list \<Rightarrow>
     error + (assignment option \<times> assignment \<times> state)" where
  "backtrack_ac3 0 cw st assignment = Inl OutOfFuel"
| "backtrack_ac3 (Suc fuel) cw st0 assignment =
     (let st = count_call st0 in
      if assignment_complete (cur st) assignment then Inr (Some assignment, assignment, st)
      else (case select_unassigned_variable cw (cur st) assignment of
              Inl e \<Rightarrow> Inl e
            | Inr variable \<Rightarrow>
                (let (st1, domains_copy) = deepcopy st in
                 case order_domain_values cw (cur st1) variable assignment of
                   Inl e \<Rightarrow> Inl e
                 | Inr vals \<Rightarrow>
                     backtrack_ac3_loop fuel cw st1 assignment variable domains_copy vals)))"
| "backtrack_ac3_loop fuel cw st assignment variable domains_copy [] =
     Inr (None, assignment, st)"
| "backtrack_ac3_loop fuel cw st0 assignment0 variable domains_copy (val # rest) =
     (let assignment = AList.update variable val assignment0;
          st = count_word st0 in
      case consistent cw assignment of
        Inl e \<Rightarrow> Inl e
      | Inr ok \<Rightarrow>
          if ok
          then (let st2 = put st (AList.update variable [val] (cur st)) in
                case ac3 cw (cur st2)
                       (Some (map (\<lambda>other_var. (other_var, variable))
                                (neighbors cw variable))) of
                  Inl e \<Rightarrow> Inl e
                | Inr (_, d3) \<Rightarrow>
                    (case backtrack_ac3 fuel cw (put st2 d3) assignment of
                       Inl e \<Rightarrow> Inl e
                     | Inr (result, assignment', st') \<Rightarrow>
                         if truthy result then Inr (result, assignment', st')
                         else (case del variable assignment' of
                                 Inl e \<Rightarrow> Inl e
                               | Inr assignment'' \<Rightarrow>
                                   backtrack_ac3_loop fuel cw (rebind st' domains_copy)
                                     assignment'' variable domains_copy rest)))
          else (case del variable assignment of
                  Inl e \<Rightarrow> Inl e
                | Inr assignment'' \<Rightarrow>
                    backtrack_ac3_loop fuel cw (rebind st domains_copy)
                      assignment'' variable domains_copy rest))"

subsection \<open>The facade\<close>

text \<open>
  \<open>solve\<close> on the state of a creator; the report of \<open>ac3\<close> is dropped, as the
  statement \<open>self.ac3()\<close> drops it.
\<close>

definition solve ::
  "nat \<Rightarrow> crossword \<Rightarrow> state \<Rightarrow> bool \<Rightarrow> error + (assignment option \<times> state)" where
  "solve fuel cw st interleaving =
     (let st1 = put st (enforce_node_consistency (cur st)) in
      case ac3 cw (cur st1) None of
        Inl e \<Rightarrow> Inl e
      | Inr (_, d2) \<Rightarrow>
          (case (if \<not> interleaving then backtrack fuel cw (put st1 d2) []
                 else backtrack_ac3 fuel cw (put st1 d2) []) of
             Inl e \<Rightarrow> Inl e
           | Inr (result, _, st') \<Rightarrow> Inr (result, st')))"

subsection \<open>Example puzzles\<close>

text \<open>Two across slots of length 3 in rows 0 and 2 of a grid whose row 1 is blocked.\<close>

definition row_A :: variable where "row_A = Variable 0 0 ACROSS 3"

definition row_B :: variable where "row_B = Variable 2 0 ACROSS 3"

definition two_rows :: "string list \<Rightarrow> crossword" where
  "two_rows ws = \<lparr>variables = [row_A, row_B], words = ws,
                 overlaps = map_of [((row_A, row_B), None), ((row_B, row_A), None)]\<rparr>"

text \<open>
  A comb: an across slot of length 5 in row 0 and three down slots hanging from
  its cells 0, 2 and 4, of lengths 2, 4 and 2.
  \<^verbatim>\<open>
  _____
  _#_#_
  ##_##
  ##_##
  \<close>
\<close>

definition slot_X :: variable where "slot_X = Variable 0 0 ACROSS 5"

definition slot_Y :: variable where "slot_Y = Variable 0 0 DOWN 2"

definition slot_W :: variable where "slot_W = Variable 0 2 DOWN 4"

definition slot_Z :: variable where "slot_Z = Variable 0 4 DOWN 2"

definition comb :: crossword where
  "comb = \<lparr>variables = [slot_X, slot_Y, slot_W, slot_Z],
           words = [''ARENA'', ''TREAT'', ''MANGO'', ''AT'', ''TO'', ''ME'', ''ON'',
                    ''EASY'', ''EVEN'', ''NOTE''],
           overlaps = map_of
             [((slot_X, slot_Y), Some (0, 0)), ((slot_Y, slot_X), Some (0, 0)),
              ((slot_X, slot_W), Some (2, 0)), ((slot_W, slot_X), Some (0, 2)),
              ((slot_X, slot_Z), Some (4, 0)), ((slot_Z, slot_X), Some (0, 4)),
              ((slot_Y, slot_W), None), ((slot_W, slot_Y), None),
              ((slot_Y, slot_Z), None), ((slot_Z, slot_Y), None),
              ((slot_W, slot_Z), None), ((slot_Z, slot_W), None)]\<rparr>"

text \<open>The domains of the comb once \<open>solve\<close> has run node consistency and \<open>ac3\<close>.\<close>

definition comb_domains :: domains where
  "comb_domains =
     [(slot_X, [''ARENA'', ''TREAT'', ''MANGO'']), (slot_Y, [''AT'', ''TO'', ''ME'']),
      (slot_W, [''EASY'', ''EVEN'', ''NOTE'']), (slot_Z, [''AT'', ''TO'', ''ON''])]"

text \<open>The domains of the comb that the candidate TREAT of \<open>slot_X\<close> leaves behind.\<close>

definition comb_stale :: domains where
  "comb_stale =
     [(slot_X, [''TREAT'']), (slot_Y, [''TO'']),
      (slot_W, [''EASY'', ''EVEN'']), (slot_Z, [''TO''])]"

text \<open>
  A corner: a down slot in column 0 and an across slot in row 2, both of length
  3, sharing the cell (2, 0).
\<close>

definition corner_across :: variable where "corner_across = Variable 2 0 ACROSS 3"

definition corner_down :: variable where "corner_down = Variable 0 0 DOWN 3"

definition corner :: crossword where
  "corner = \<lparr>variables = [corner_across, corner_down], words = [''CAT'', ''AT''],
             overlaps = map_of [((corner_across, corner_down), Some (0, 2)),
                                ((corner_down, corner_across), Some (2, 0))]\<rparr>"

text \<open>What a search returned and the domains \<open>self.domains\<close> refers to afterwards.\<close>

definition result_of ::
  "error + (assignment option \<times> assignment \<times> state) \<Rightarrow>
   error + (assignment option \<times> domains)" where
  "result_of out = map_sum id (\<lambda>(result, assignment, st). (result, cur st)) out"

text \<open>Two states have \<open>self.domains\<close> refer to the same object of the same store.\<close>

definition same_store :: "state \<Rightarrow> state \<Rightarrow> bool" where
  "same_store st st' = (store st' = store st \<and> self_domains st' = self_domains st)"

subsection \<open>Well-formed puzzles and invariants of the domains\<close>

text \<open>
  What the puzzle model guarantees of the overlaps it computes from the grid: an
  entry for every two distinct slots, indices inside the two slots, and the same
  cell seen from both sides.
\<close>

definition wf_crossword :: "crossword \<Rightarrow> bool" where
  "wf_crossword cw =
     (\<forall>x\<in>set (variables cw). \<forall>y\<in>set (variables cw). x \<noteq> y \<longrightarrow>
        (case overlaps cw (x, y) of
           None \<Rightarrow> False
         | Some None \<Rightarrow> overlaps cw (y, x) = Some None
         | Some (Some (i, j)) \<Rightarrow>
             i < vlength x \<and> j < vlength y \<and> overlaps cw (y, x) = Some (Some (j, i))))"

text \<open>Every word of a domain has the length of its slot.\<close>

definition node_consistent :: "domains \<Rightarrow> bool" where
  "node_consistent d =
     (\<forall>u ws. map_of d u = Some ws \<longrightarrow> (\<forall>w\<in>set ws. length w = vlength u))"

text \<open>The same keys in the same order, and every domain a subset of what it was.\<close>

definition shrinks :: "domains \<Rightarrow> domains \<Rightarrow> bool" where
  "shrinks d d' =
     (map fst d' = map fst d \<and>
      (\<forall>u ws. map_of d u = Some ws \<longrightarrow> (\<exists>ws'. map_of d' u = Some ws' \<and> set ws' \<subseteq> set ws)))"

text \<open>A queue of arcs between distinct slots of the puzzle.\<close>

definition arcs_ok :: "crossword \<Rightarrow> (variable \<times> variable) list \<Rightarrow> bool" where
  "arcs_ok cw arcs =
     (\<forall>(x, y)\<in>set arcs. x \<in> set (variables cw) \<and> y \<in> set (variables cw) \<and> x \<noteq> y)"

text \<open>The domain of a slot; a slot that is no key of the dict has none.\<close>

definition domain_of :: "domains \<Rightarrow> variable \<Rightarrow> string list" where
  "domain_of d x = (case map_of d x of None \<Rightarrow> [] | Some ws \<Rightarrow> ws)"

text \<open>
  The arc \<open>(x, y)\<close> is consistent: every word left for \<open>x\<close> has a different word
  left for \<open>y\<close> that agrees with it on the shared cell.
\<close>

definition arc_consistent :: "crossword \<Rightarrow> domains \<Rightarrow> variable \<Rightarrow> variable \<Rightarrow> bool" where
  "arc_consistent cw d x y =
     (\<forall>val_x\<in>set (domain_of d x). \<exists>val_y\<in>set (domain_of d y).
        val_x \<noteq> val_y \<and> overlap_satisfied cw x y val_x val_y = Inr True)"

text \<open>
  The invariant of the propagation loop, for a set \<open>S\<close> of arcs to watch: an arc
  of \<open>S\<close> between neighbours either waits in the queue or is consistent.
\<close>

definition arcs_settled ::
  "crossword \<Rightarrow> (variable \<times> variable) set \<Rightarrow> domains \<Rightarrow> (variable \<times> variable) list \<Rightarrow> bool" where
  "arcs_settled cw S d arcs =
     (\<forall>(a, b)\<in>S. a \<in> set (neighbors cw b) \<longrightarrow> (a, b) \<in> set arcs \<or> arc_consistent cw d a b)"

text \<open>The keys of a dict of domains are the slots, and its words come from the word list.\<close>

definition dom_inv :: "crossword \<Rightarrow> domains \<Rightarrow> bool" where
  "dom_inv cw d =
     (map fst d = variables cw \<and>
      (\<forall>u ws. map_of d u = Some ws \<longrightarrow> set ws \<subseteq> set (words cw)))"

text \<open>\<open>self.domains\<close> refers to an object of the store, and every object is such a dict.\<close>

definition store_inv :: "crossword \<Rightarrow> state \<Rightarrow> bool" where
  "store_inv cw st =
     (self_domains st < length (store st) \<and> (\<forall>d\<in>set (store st). dom_inv cw d))"

text \<open>Every assigned word comes from the word list.\<close>

definition asg_inv :: "crossword \<Rightarrow> assignment \<Rightarrow> bool" where
  "asg_inv cw a = (\<forall>(v, w)\<in>set a. w \<in> set (words cw))"

text \<open>
  What a search that returns guarantees: the invariants again, a store that has
  not lost an object, and for a result that is not \<open>None\<close>: it is the dict
  \<open>assignment\<close> itself, it assigns every slot, and it passed \<open>consistent\<close> unless it
  is the assignment the search was called with.
\<close>

definition search_post ::
  "crossword \<Rightarrow> state \<Rightarrow> assignment \<Rightarrow> assignment option \<times> assignment \<times> state \<Rightarrow> bool" where
  "search_post cw st a res =
     (case res of (r, a', st') \<Rightarrow>
        store_inv cw st' \<and> length (store st) \<le> length (store st') \<and> asg_inv cw a' \<and>
        (case r of
           None \<Rightarrow> True
         | Some r0 \<Rightarrow> r0 = a' \<and> list_all (\<lambda>v. v \<in> fst ` set a') (variables cw) \<and>
                      (consistent cw a' = Inr True \<or> a' = a)))"

section \<open>Properties\<close>

subsection \<open>Revision of an arc between slots that do not overlap\<close>

lemma supported_no_overlap:
  "overlaps cw (x, y) = Some None \<Longrightarrow>
   supported cw x y val_x dy = Inr (\<exists>val_y\<in>set dy. val_x \<noteq> val_y)"
  by (induction dy) (auto simp: overlap_satisfied_def)

lemma revise_scan_no_overlap:
  "overlaps cw (x, y) = Some None \<Longrightarrow> map_of d y = Some dy \<Longrightarrow>
   revise_scan cw d x y vs = Inr (filter (\<lambda>val_x. set dy \<subseteq> {val_x}) vs)"
  by (induction vs) (auto simp: lookup_def supported_no_overlap)

text \<open>
  C6, as stated, fails: \<open>revise\<close> asks for a word of \<open>y\<close> that differs from
  \<open>val_x\<close> also when the slots do not overlap. With the single word CAT in both
  domains, \<open>revise(row_A, row_B)\<close> removes CAT from the domain of \<open>row_A\<close> and
  returns true.
\<close>

theorem revise_no_overlap_removes:
  "row_A \<noteq> row_B \<and> overlaps (two_rows [''CAT'']) (row_A, row_B) = Some None \<and>
   revise (two_rows [''CAT'']) [(row_A, [''CAT'']), (row_B, [''CAT''])] row_A row_B =
   Inr (True, [(row_A, []), (row_B, [''CAT''])])"
  by code_simp

text \<open>
  C6, amended: for slots \<open>x\<close> and \<open>y\<close> that do not overlap, \<open>revise(x, y)\<close> removes
  from the domain of \<open>x\<close> exactly the words \<open>val_x\<close> for which the domain of \<open>y\<close>
  holds no word other than \<open>val_x\<close> (it is empty or is \<open>{val_x}\<close>), leaves the other
  domains alone, and returns true iff it removed a word. So nothing is removed and
  the result is false as soon as the domain of \<open>y\<close> holds two different words.
\<close>

theorem revise_no_overlap:
  assumes "overlaps cw (x, y) = Some None"
    and "map_of d x = Some dx" and "map_of d y = Some dy"
  shows "revise cw d x y =
         Inr (\<exists>val_x\<in>set dx. set dy \<subseteq> {val_x},
              AList.update x (filter (\<lambda>val_x. \<not> set dy \<subseteq> {val_x}) dx) d)"
proof -
  let ?gone = "filter (\<lambda>val_x. set dy \<subseteq> {val_x}) dx"
  have scan: "revise_scan cw d x y dx = Inr ?gone"
    using assms(1,3) by (rule revise_scan_no_overlap)
  have kept: "filter (\<lambda>w. w \<notin> set ?gone) dx = filter (\<lambda>val_x. \<not> set dy \<subseteq> {val_x}) dx"
    by (rule filter_cong) auto
  have flag: "(?gone \<noteq> []) = (\<exists>val_x\<in>set dx. set dy \<subseteq> {val_x})"
    by (simp add: filter_empty_conv)
  show ?thesis
    unfolding revise_def using assms(2) scan kept flag by (simp add: lookup_def)
qed

text \<open>
  The amended C6 at a concrete input: with CAT and DOG in both domains nothing is
  removed.
\<close>

theorem revise_no_overlap_witness:
  "revise (two_rows [''CAT'', ''DOG''])
     [(row_A, [''CAT'', ''DOG'']), (row_B, [''CAT'', ''DOG''])] row_A row_B =
   Inr (False, [(row_A, [''CAT'', ''DOG'']), (row_B, [''CAT'', ''DOG''])])"
proof -
  have o: "overlaps (two_rows [''CAT'', ''DOG'']) (row_A, row_B) = Some None"
    by (simp add: two_rows_def row_A_def row_B_def)
  have a: "map_of [(row_A, [''CAT'', ''DOG'']), (row_B, [''CAT'', ''DOG''])] row_A
           = Some [''CAT'', ''DOG'']" by simp
  have b: "map_of [(row_A, [''CAT'', ''DOG'']), (row_B, [''CAT'', ''DOG''])] row_B
           = Some [''CAT'', ''DOG'']" by (simp add: row_A_def row_B_def)
  show ?thesis
    using revise_no_overlap [OF o a b] by simp
qed

subsection \<open>The steps of the plain search\<close>

lemma backtrack_Suc:
  "backtrack (Suc fuel) cw st0 a =
     (if assignment_complete (cur (count_call st0)) a
      then Inr (Some a, a, count_call st0)
      else (case select_unassigned_variable cw (cur (count_call st0)) a of
              Inl e \<Rightarrow> Inl e
            | Inr var \<Rightarrow>
                (case order_domain_values cw (cur (count_call st0)) var a of
                   Inl e \<Rightarrow> Inl e
                 | Inr vals \<Rightarrow> backtrack_loop fuel cw (count_call st0) a var vals)))"
  by (simp only: backtrack.simps Let_def)

lemma backtrack_Suc_cases:
  assumes "backtrack (Suc fuel) cw st0 a = Inr res"
  shows "(assignment_complete (cur (count_call st0)) a \<and> res = (Some a, a, count_call st0)) \<or>
         (\<not> assignment_complete (cur (count_call st0)) a \<and>
          (\<exists>var vals. select_unassigned_variable cw (cur (count_call st0)) a = Inr var \<and>
             order_domain_values cw (cur (count_call st0)) var a = Inr vals \<and>
             backtrack_loop fuel cw (count_call st0) a var vals = Inr res))"
  using assms unfolding backtrack_Suc
  by (auto split: if_splits sum.splits)

lemma backtrack_loop_Cons_cases:
  assumes "backtrack_loop fuel cw st0 a0 var (val # rest) = Inr res"
  obtains (inconsistent) a2 where
      "consistent cw (AList.update var val a0) = Inr False"
      "del var (AList.update var val a0) = Inr a2"
      "backtrack_loop fuel cw (count_word st0) a2 var rest = Inr res"
  | (found) r1 a1 st1 where "consistent cw (AList.update var val a0) = Inr True"
      "backtrack fuel cw (count_word st0) (AList.update var val a0) = Inr (r1, a1, st1)"
      "truthy r1" "res = (r1, a1, st1)"
  | (failed) r1 a1 st1 a2 where
      "consistent cw (AList.update var val a0) = Inr True"
      "backtrack fuel cw (count_word st0) (AList.update var val a0) = Inr (r1, a1, st1)"
      "\<not> truthy r1" "del var a1 = Inr a2"
      "backtrack_loop fuel cw st1 a2 var rest = Inr res"
  using assms
  by (simp add: Let_def split: if_splits sum.splits prod.splits)

lemma frame_count_call [simp]:
  "store (count_call st) = store st" "self_domains (count_call st) = self_domains st"
  "cur (count_call st) = cur st"
  by (simp_all add: count_call_def cur_def)

lemma frame_count_word [simp]:
  "store (count_word st) = store st" "self_domains (count_word st) = self_domains st"
  "cur (count_word st) = cur st"
  by (simp_all add: count_word_def cur_def)

subsection \<open>The plain search leaves the domains alone\<close>

lemma backtrack_loop_same_store:
  assumes bt: "\<And>st a res. backtrack fuel cw st a = Inr res \<Longrightarrow> same_store st (snd (snd res))"
  shows "backtrack_loop fuel cw st a var vals = Inr res \<Longrightarrow> same_store st (snd (snd res))"
proof (induction vals arbitrary: st a)
  case Nil
  then show ?case by (auto simp: same_store_def)
next
  case (Cons val rest)
  from Cons.prems show ?case
  proof (cases rule: backtrack_loop_Cons_cases)
    case (inconsistent a2)
    from Cons.IH [OF inconsistent(3)] show ?thesis by (simp add: same_store_def)
  next
    case (found r1 a1 st1)
    from bt [OF found(2)] found(4) show ?thesis by (simp add: same_store_def)
  next
    case (failed r1 a1 st1 a2)
    from bt [OF failed(2)] Cons.IH [OF failed(5)] show ?thesis by (simp add: same_store_def)
  qed
qed

lemma backtrack_same_store:
  "backtrack fuel cw st a = Inr res \<Longrightarrow> same_store st (snd (snd res))"
proof (induction fuel arbitrary: st a res)
  case 0
  then show ?case by simp
next
  case (Suc fuel)
  from backtrack_Suc_cases [OF Suc.prems] show ?case
  proof (elim disjE conjE exE)
    assume "res = (Some a, a, count_call st)"
    then show ?thesis by (simp add: same_store_def)
  next
    fix var vals
    assume "backtrack_loop fuel cw (count_call st) a var vals = Inr res"
    from backtrack_loop_same_store [OF Suc.IH this] show ?thesis
      by (simp add: same_store_def)
  qed
qed

text \<open>
  C10: a call of the plain search \<open>backtrack\<close> that returns, with an assignment
  or with \<open>None\<close>, leaves the store of domain dicts and the reference
  \<open>self.domains\<close> as they were, so every slot's domain is what it was before the
  call (only the two counters move). Its helpers are functions of the domains
  that return no state at all.
\<close>

theorem backtrack_frame:
  "backtrack fuel cw st a = Inr (result, a', st') \<Longrightarrow>
   store st' = store st \<and> self_domains st' = self_domains st \<and> cur st' = cur st"
  using backtrack_same_store [of fuel cw st a "(result, a', st')"]
  by (simp add: same_store_def cur_def)

text \<open>C10 at a concrete input: two rows, the words CAT and DOG.\<close>

theorem backtrack_frame_witness:
  "backtrack 3 (two_rows [''CAT'', ''DOG''])
     (State [[(row_A, [''CAT'', ''DOG'']), (row_B, [''CAT'', ''DOG''])]] 0 0 0) [] =
     Inr (Some [(row_A, ''CAT''), (row_B, ''DOG'')], [(row_A, ''CAT''), (row_B, ''DOG'')],
          State [[(row_A, [''CAT'', ''DOG'']), (row_B, [''CAT'', ''DOG''])]] 0 3 3) \<and>
   cur (State [[(row_A, [''CAT'', ''DOG'']), (row_B, [''CAT'', ''DOG''])]] 0 3 3) =
   cur (State [[(row_A, [''CAT'', ''DOG'']), (row_B, [''CAT'', ''DOG''])]] 0 0 0)"
proof -
  have run: "backtrack 3 (two_rows [''CAT'', ''DOG''])
     (State [[(row_A, [''CAT'', ''DOG'']), (row_B, [''CAT'', ''DOG''])]] 0 0 0) [] =
     Inr (Some [(row_A, ''CAT''), (row_B, ''DOG'')], [(row_A, ''CAT''), (row_B, ''DOG'')],
          State [[(row_A, [''CAT'', ''DOG'']), (row_B, [''CAT'', ''DOG''])]] 0 3 3)"
    by code_simp
  from backtrack_frame [OF run] run show ?thesis by simp
qed

subsection \<open>The interleaved search on the comb\<close>

text \<open>
  C3 at a failing input, the comb. \<open>solve\<close> leaves the domains \<open>comb_domains\<close>;
  the first call of \<open>backtrack_ac3\<close> selects \<open>slot_X\<close>, copies the domains (object
  1 of the store) and tries ARENA, TREAT, MANGO in this order. After the failure
  of ARENA \<open>self.domains\<close> is the copy, equal to the snapshot. The branch of TREAT
  then mutates that very copy, so after its failure \<open>self.domains\<close> holds
  \<open>comb_stale\<close>, not the snapshot: nothing is restored for the second candidate.
\<close>

theorem backtrack_ac3_restores_first_candidate_only:
  "ac3 comb (enforce_node_consistency (cur (init comb))) None = Inr (True, comb_domains) \<and>
   order_domain_values comb comb_domains slot_X [] = Inr [''ARENA'', ''TREAT'', ''MANGO''] \<and>
   deepcopy (State [comb_domains] 0 1 0) = (State [comb_domains, comb_domains] 0 1 0, 1) \<and>
   result_of (backtrack_ac3_loop 4 comb (State [comb_domains, comb_domains] 0 1 0) []
                slot_X 1 [''ARENA'']) = Inr (None, comb_domains) \<and>
   result_of (backtrack_ac3_loop 4 comb (State [comb_domains, comb_domains] 0 1 0) []
                slot_X 1 [''ARENA'', ''TREAT'']) = Inr (None, comb_stale) \<and>
   comb_stale \<noteq> comb_domains"
  by code_simp

text \<open>
  C2 at a failing input, the comb with its ten words: the plain search returns
  the fill MANGO, ME, NOTE, ON, and the interleaved search returns \<open>None\<close>. The
  candidates ARENA and TREAT of \<open>slot_X\<close> fail in both searches; in the interleaved
  one MANGO then meets the domains that TREAT left behind.
\<close>

theorem variants_disagree_on_comb:
  "map_sum id fst (solve 5 comb (init comb) False) =
     Inr (Some [(slot_X, ''MANGO''), (slot_Y, ''ME''), (slot_W, ''NOTE''), (slot_Z, ''ON'')]) \<and>
   map_sum id fst (solve 5 comb (init comb) True) = Inr None"
  by code_simp

subsection \<open>The consistency check on a word that is too short\<close>

text \<open>
  C8 at a failing input, the corner with CAT across and AT down. The word AT has
  not the length of its slot, so the claim asks for false. \<open>consistent\<close> meets
  CAT first and reads \<open>AT[2]\<close> for the shared cell before it has checked the
  length of AT: it raises \<open>IndexError\<close>. With the two entries in the other order
  it returns false.
\<close>

theorem consistent_raises_on_short_neighbor:
  "length ''AT'' \<noteq> vlength corner_down \<and>
   consistent corner [(corner_across, ''CAT''), (corner_down, ''AT'')] = Inl IndexError \<and>
   consistent corner [(corner_down, ''AT''), (corner_across, ''CAT'')] = Inr False"
  by code_simp

subsection \<open>Propagation keeps the keys, shrinks the domains and raises nothing\<close>

lemma shrinks_refl: "shrinks d d"
  by (simp add: shrinks_def)

lemma shrinks_trans:
  assumes "shrinks d d'" and "shrinks d' d''"
  shows "shrinks d d''"
  unfolding shrinks_def
proof (intro conjI allI impI)
  from assms show "map fst d'' = map fst d" by (simp add: shrinks_def)
next
  fix u ws
  assume "map_of d u = Some ws"
  with assms(1) obtain ws' where 1: "map_of d' u = Some ws'" "set ws' \<subseteq> set ws"
    unfolding shrinks_def by blast
  with assms(2) obtain ws'' where 2: "map_of d'' u = Some ws''" "set ws'' \<subseteq> set ws'"
    unfolding shrinks_def by blast
  from 1 2 show "\<exists>ws'. map_of d'' u = Some ws' \<and> set ws' \<subseteq> set ws" by blast
qed

lemma map_fst_update:
  "map_of d x = Some dx \<Longrightarrow> map fst (AList.update x ws d) = map fst d"
  by (induction d) (auto split: if_splits)

lemma shrinks_update:
  assumes "map_of d x = Some dx" "set ws \<subseteq> set dx"
  shows "shrinks d (AList.update x ws d)"
  unfolding shrinks_def
proof (intro conjI allI impI)
  show "map fst (AList.update x ws d) = map fst d" by (rule map_fst_update [OF assms(1)])
next
  fix u ws0
  assume "map_of d u = Some ws0"
  with assms show "\<exists>ws'. map_of (AList.update x ws d) u = Some ws' \<and> set ws' \<subseteq> set ws0"
    by (cases "u = x") (simp_all add: update_conv')
qed

lemma map_of_Some_key: "map_of d u = Some ws \<Longrightarrow> u \<in> set (map fst d)"
  by (induction d) (auto split: if_splits)

lemma key_map_of_Some: "u \<in> set (map fst d) \<Longrightarrow> \<exists>ws. map_of d u = Some ws"
  by (induction d) auto

lemma node_consistent_shrinks:
  assumes "node_consistent d" and "shrinks d d'"
  shows "node_consistent d'"
  unfolding node_consistent_def
proof (intro allI impI ballI)
  fix u ws' w
  assume c: "map_of d' u = Some ws'" and w: "w \<in> set ws'"
  from assms(2) have k: "map fst d' = map fst d" by (simp add: shrinks_def)
  from map_of_Some_key [OF c] have "u \<in> set (map fst d)" unfolding k .
  from key_map_of_Some [OF this] obtain ws where ws: "map_of d u = Some ws" ..
  with assms(2) c have "set ws' \<subseteq> set ws" unfolding shrinks_def by fastforce
  with assms(1) ws w show "length w = vlength u" unfolding node_consistent_def by blast
qed

lemma revise_shrinks:
  assumes "revise cw d x y = Inr (revised, d')"
  shows "shrinks d d'"
proof -
  from assms obtain dx to_remove where
    dx: "map_of d x = Some dx" and
    d': "d' = AList.update x (filter (\<lambda>w. w \<notin> set to_remove) dx) d"
    by (auto simp: revise_def lookup_def split: option.splits sum.splits)
  show ?thesis unfolding d' by (rule shrinks_update [OF dx]) auto
qed

lemma ac3_loop_shrinks:
  "ac3_loop cw d arcs = Inr (b, d') \<Longrightarrow> shrinks d d'"
proof (induction cw d arcs rule: ac3_loop.induct)
  case (1 cw d)
  then show ?case by (simp add: shrinks_refl)
next
  case (2 cw d domain_x domain_y arcs)
  from "2.prems" obtain revised d1 where
    rv: "revise cw d domain_x domain_y = Inr (revised, d1)"
    by (cases "revise cw d domain_x domain_y") auto
  have s1: "shrinks d d1" by (rule revise_shrinks [OF rv])
  show ?case
  proof (cases revised)
    case False
    with "2.prems" rv have "ac3_loop cw d1 arcs = Inr (b, d')" by simp
    from "2.IH"(2) [OF rv refl False this] s1 show ?thesis by (rule shrinks_trans [rotated])
  next
    case True
    with "2.prems" rv obtain dx where dx: "lookup d1 domain_x = Inr dx"
      by (cases "lookup d1 domain_x") auto
    show ?thesis
    proof (cases "dx = []")
      case e: True
      with "2.prems" rv True dx have "d' = d1" by simp
      with s1 show ?thesis by simp
    next
      case ne: False
      let ?arcs = "rev (map (\<lambda>domain_z. (domain_z, domain_x))
                         (filter (\<lambda>domain_z. domain_z \<noteq> domain_y)
                            (neighbors cw domain_x))) @ arcs"
      from "2.prems" rv True dx ne have "ac3_loop cw d1 ?arcs = Inr (b, d')" by simp
      from "2.IH"(1) [OF rv refl True dx ne this] s1 show ?thesis
        by (rule shrinks_trans [rotated])
    qed
  qed
qed

lemma overlap_satisfied_ok:
  assumes "wf_crossword cw" "x \<in> set (variables cw)" "y \<in> set (variables cw)" "x \<noteq> y"
    and "length val_x = vlength x" "length val_y = vlength y"
  shows "\<not> isl (overlap_satisfied cw x y val_x val_y)"
proof -
  from assms(1-4) have
    "case overlaps cw (x, y) of None \<Rightarrow> False | Some None \<Rightarrow> True
     | Some (Some (i, j)) \<Rightarrow> i < vlength x \<and> j < vlength y"
    unfolding wf_crossword_def by (fastforce split: option.splits)
  with assms(5,6) show ?thesis
    unfolding overlap_satisfied_def by (auto split: option.splits)
qed

lemma supported_ok:
  assumes "wf_crossword cw" "x \<in> set (variables cw)" "y \<in> set (variables cw)" "x \<noteq> y"
    and "length val_x = vlength x"
  shows "\<forall>val_y\<in>set dy. length val_y = vlength y \<Longrightarrow>
         \<not> isl (supported cw x y val_x dy)"
proof (induction dy)
  case Nil
  show ?case by simp
next
  case (Cons val_y rest)
  then have len: "length val_y = vlength y" and
    ih: "\<not> isl (supported cw x y val_x rest)" by simp_all
  from overlap_satisfied_ok [OF assms len] obtain ok where
    "overlap_satisfied cw x y val_x val_y = Inr ok"
    by (cases "overlap_satisfied cw x y val_x val_y") auto
  with ih show ?case by auto
qed

lemma revise_scan_ok:
  assumes "wf_crossword cw" "x \<in> set (variables cw)" "y \<in> set (variables cw)" "x \<noteq> y"
    and dy: "map_of d y = Some dy" and ok: "\<forall>val_y\<in>set dy. length val_y = vlength y"
  shows "\<forall>val_x\<in>set vs. length val_x = vlength x \<Longrightarrow>
         \<not> isl (revise_scan cw d x y vs)"
proof (induction vs)
  case Nil
  show ?case by simp
next
  case (Cons val_x rest)
  then have len: "length val_x = vlength x" and
    ih: "\<not> isl (revise_scan cw d x y rest)" by simp_all
  from supported_ok [OF assms(1-4) len ok] obtain c where
    c: "supported cw x y val_x dy = Inr c"
    by (cases "supported cw x y val_x dy") auto
  from ih obtain to_remove where "revise_scan cw d x y rest = Inr to_remove"
    by (cases "revise_scan cw d x y rest") auto
  with c dy show ?case by (simp add: lookup_def)
qed

lemma revise_ok:
  assumes wf: "wf_crossword cw" and x: "x \<in> set (variables cw)" and y: "y \<in> set (variables cw)"
    and ne: "x \<noteq> y" and keys: "map fst d = variables cw" and nc: "node_consistent d"
  shows "\<exists>revised d'. revise cw d x y = Inr (revised, d')"
proof -
  from x keys have "x \<in> set (map fst d)" by simp
  from key_map_of_Some [OF this] obtain dx where dx: "map_of d x = Some dx" ..
  from y keys have "y \<in> set (map fst d)" by simp
  from key_map_of_Some [OF this] obtain dy where dy: "map_of d y = Some dy" ..
  from nc dx have lx: "\<forall>val_x\<in>set dx. length val_x = vlength x"
    unfolding node_consistent_def by blast
  from nc dy have ly: "\<forall>val_y\<in>set dy. length val_y = vlength y"
    unfolding node_consistent_def by blast
  from revise_scan_ok [OF wf x y ne dy ly lx] obtain to_remove where
    "revise_scan cw d x y dx = Inr to_remove"
    by (cases "revise_scan cw d x y dx") auto
  with dx have "revise cw d x y =
    Inr (to_remove \<noteq> [], AList.update x (filter (\<lambda>w. w \<notin> set to_remove) dx) d)"
    by (simp add: revise_def lookup_def)
  then show ?thesis by blast
qed

lemma neighbors_subset: "z \<in> set (neighbors cw x) \<Longrightarrow> z \<in> set (variables cw) \<and> z \<noteq> x"
  by (simp add: neighbors_def)

lemma ac3_loop_ok:
  "wf_crossword cw \<Longrightarrow> map fst d = variables cw \<Longrightarrow> node_consistent d \<Longrightarrow>
   arcs_ok cw arcs \<Longrightarrow> \<exists>b d'. ac3_loop cw d arcs = Inr (b, d')"
proof (induction cw d arcs rule: ac3_loop.induct)
  case (1 cw d)
  show ?case by auto
next
  case (2 cw d domain_x domain_y arcs)
  from "2.prems"(4) have x: "domain_x \<in> set (variables cw)"
    and y: "domain_y \<in> set (variables cw)" and ne: "domain_x \<noteq> domain_y"
    and rest: "arcs_ok cw arcs"
    by (simp_all add: arcs_ok_def)
  from revise_ok [OF "2.prems"(1) x y ne "2.prems"(2,3)] obtain revised d1 where
    rv: "revise cw d domain_x domain_y = Inr (revised, d1)" by blast
  have s1: "shrinks d d1" by (rule revise_shrinks [OF rv])
  then have k1: "map fst d1 = variables cw" using "2.prems"(2) by (simp add: shrinks_def)
  have n1: "node_consistent d1" by (rule node_consistent_shrinks [OF "2.prems"(3) s1])
  show ?case
  proof (cases revised)
    case False
    from "2.IH"(2) [OF rv refl False "2.prems"(1) k1 n1 rest] rv False
    show ?thesis by simp
  next
    case True
    from x k1 have "domain_x \<in> set (map fst d1)" by simp
    from key_map_of_Some [OF this] obtain dx where "map_of d1 domain_x = Some dx" ..
    then have dx: "lookup d1 domain_x = Inr dx" by (simp add: lookup_def)
    show ?thesis
    proof (cases "dx = []")
      case e: True
      with rv True dx
      have "ac3_loop cw d ((domain_x, domain_y) # arcs) = Inr (False, d1)" by simp
      then show ?thesis by blast
    next
      case nemp: False
      let ?new = "rev (map (\<lambda>domain_z. (domain_z, domain_x))
                         (filter (\<lambda>domain_z. domain_z \<noteq> domain_y)
                            (neighbors cw domain_x)))"
      have "arcs_ok cw (?new @ arcs)"
        using rest x by (auto simp: arcs_ok_def dest: neighbors_subset)
      from "2.IH"(1) [OF rv refl True dx nemp "2.prems"(1) k1 n1 this] rv True dx nemp
      show ?thesis by simp
    qed
  qed
qed

lemma all_arcs_ok: "map fst d = variables cw \<Longrightarrow> arcs_ok cw (rev (all_arcs d))"
  by (auto simp: arcs_ok_def all_arcs_def)

lemma ac3_full_ok:
  assumes "wf_crossword cw" "map fst d = variables cw" "node_consistent d"
  shows "\<exists>b d'. ac3 cw d None = Inr (b, d') \<and> shrinks d d'"
proof -
  from ac3_loop_ok [OF assms all_arcs_ok [OF assms(2)]] obtain b d' where
    r: "ac3_loop cw d (rev (all_arcs d)) = Inr (b, d')" by blast
  from ac3_loop_shrinks [OF r] r show ?thesis by (auto simp: ac3_def)
qed

lemma select_unassigned_variable_min:
  assumes "u0 \<in> set (map fst d)" "u0 \<notin> fst ` set a"
  shows "\<exists>u. select_unassigned_variable cw d a = Inr u \<and> u \<in> set (map fst d) \<and>
             u \<notin> fst ` set a \<and> mrv_key cw d u \<le> mrv_key cw d u0"
proof -
  let ?xs = "filter (\<lambda>var. var \<notin> fst ` set a) (map fst d)"
  let ?ys = "sort_key (mrv_key cw d) ?xs"
  from assms have u0: "u0 \<in> set ?ys" by simp
  then obtain u rest where ys: "?ys = u # rest" by (cases ?ys) auto
  have "sorted (map (mrv_key cw d) ?ys)" by (rule sorted_sort_key)
  with ys u0 have le: "mrv_key cw d u \<le> mrv_key cw d u0" by auto
  have "u \<in> set ?ys" using ys by simp
  then have "u \<in> set (map fst d)" "u \<notin> fst ` set a" by auto
  with ys le show ?thesis by (simp add: select_unassigned_variable_def)
qed

lemma order_domain_values_empty:
  "map_of d u = Some [] \<Longrightarrow> order_domain_values cw d u a = Inr []"
  by (simp add: order_domain_values_def lookup_def)

lemma mrv_key_empty:
  assumes "map_of d v = Some []" "mrv_key cw d u \<le> mrv_key cw d v" "u \<in> set (map fst d)"
  shows "map_of d u = Some []"
proof -
  from key_map_of_Some [OF assms(3)] obtain ws where ws: "map_of d u = Some ws" ..
  with assms(1,2) have "length ws = 0" by (auto simp: mrv_key_def)
  with ws show ?thesis by simp
qed

lemma enforce_node_consistency_keys [simp]:
  "map fst (enforce_node_consistency d) = map fst d"
  by (induction d) (auto simp: enforce_node_consistency_def)

lemma map_of_enforce_node_consistency:
  "map_of (enforce_node_consistency d) u =
   map_option (filter (\<lambda>val. length val = vlength u)) (map_of d u)"
  by (induction d) (auto simp: enforce_node_consistency_def)

lemma node_consistent_enforce: "node_consistent (enforce_node_consistency d)"
  by (auto simp: node_consistent_def map_of_enforce_node_consistency)

lemma map_of_init:
  "v \<in> set (variables cw) \<Longrightarrow> map_of (cur (init cw)) v = Some (words cw)"
  by (simp add: init_def cur_def map_of_map_restrict)

lemma cur_put: "self_domains st < length (store st) \<Longrightarrow> cur (put st d) = d"
  by (simp add: cur_def put_def)

lemma put_put: "put (put st d) d' = put st d'"
  by (simp add: put_def)

lemma cur_deepcopy:
  "self_domains st < length (store st) \<Longrightarrow> cur (fst (deepcopy st)) = cur st"
  by (simp add: deepcopy_def cur_def nth_append)

text \<open>
  C9: in a well-formed puzzle with a slot whose length is the length of no word
  of the word list, \<open>solve\<close> returns \<open>None\<close>, with either value of the flag
  \<open>interleaving\<close> and whatever the recursion depth available (at least one call):
  node consistency empties the domain of that slot, \<open>ac3\<close> raises nothing and
  keeps it empty, and the first call of the search selects a slot with an empty
  domain, finds no candidate and returns \<open>None\<close>. No exception escapes.
\<close>

theorem solve_unfillable_slot:
  assumes wf: "wf_crossword cw" and v: "v \<in> set (variables cw)"
    and len: "\<forall>w\<in>set (words cw). length w \<noteq> vlength v"
  shows "\<exists>st'. solve (Suc fuel) cw (init cw) interleaving = Inr (None, st')"
proof -
  let ?d1 = "enforce_node_consistency (cur (init cw))"
  let ?st1 = "put (init cw) ?d1"
  have valid: "self_domains (init cw) < length (store (init cw))" by (simp add: init_def)
  have c1: "cur ?st1 = ?d1" by (rule cur_put [OF valid])
  have k1: "map fst ?d1 = variables cw" by (simp add: init_def cur_def comp_def)
  from len have e1: "map_of ?d1 v = Some []"
    by (simp add: map_of_enforce_node_consistency map_of_init [OF v] filter_empty_conv)
  from ac3_full_ok [OF wf k1 node_consistent_enforce] obtain b d2 where
    a: "ac3 cw ?d1 None = Inr (b, d2)" and s: "shrinks ?d1 d2" by blast
  let ?st2 = "put ?st1 d2"
  have st2: "?st2 = put (init cw) d2" by (rule put_put)
  have c2: "cur ?st2 = d2" unfolding st2 by (rule cur_put [OF valid])
  have valid2: "self_domains (count_call ?st2) < length (store (count_call ?st2))"
    by (simp add: put_def init_def)
  from s k1 have k2: "map fst d2 = variables cw" by (simp add: shrinks_def)
  from s e1 have e2: "map_of d2 v = Some []" unfolding shrinks_def by fastforce
  from v k2 have vk: "v \<in> set (map fst d2)" by simp
  then have inc: "\<not> assignment_complete d2 []"
    by (auto simp: assignment_complete_def list_all_iff)
  from select_unassigned_variable_min [OF vk, of "[]" cw] obtain u where
    sel: "select_unassigned_variable cw d2 [] = Inr u" and uk: "u \<in> set (map fst d2)"
    and le: "mrv_key cw d2 u \<le> mrv_key cw d2 v" by auto
  from mrv_key_empty [OF e2 le uk] have "map_of d2 u = Some []" .
  then have ord: "order_domain_values cw d2 u [] = Inr []"
    by (rule order_domain_values_empty)
  have plain: "backtrack (Suc fuel) cw ?st2 [] = Inr (None, [], count_call ?st2)"
    using inc sel ord by (simp add: backtrack_Suc c2)
  have cd: "cur (fst (deepcopy (count_call ?st2))) = d2"
    using cur_deepcopy [OF valid2] c2 by simp
  have inter: "\<exists>st'. backtrack_ac3 (Suc fuel) cw ?st2 [] = Inr (None, [], st')"
    using inc sel ord cd by (simp add: c2 Let_def case_prod_beta)
  show ?thesis
  proof (cases interleaving)
    case False
    with a plain show ?thesis by (simp add: solve_def c1 Let_def)
  next
    case True
    from inter obtain st' where "backtrack_ac3 (Suc fuel) cw ?st2 [] = Inr (None, [], st')" ..
    with a True show ?thesis by (simp add: solve_def c1 Let_def)
  qed
qed

text \<open>C9 at a concrete input: two rows of length 3 and the only word AT.\<close>

theorem solve_unfillable_slot_witness:
  "(\<exists>st'. solve 1 (two_rows [''AT'']) (init (two_rows [''AT''])) False = Inr (None, st')) \<and>
   (\<exists>st'. solve 1 (two_rows [''AT'']) (init (two_rows [''AT''])) True = Inr (None, st'))"
proof -
  have wf: "wf_crossword (two_rows [''AT''])" by code_simp
  have v: "row_A \<in> set (variables (two_rows [''AT'']))" by (simp add: two_rows_def)
  have len: "\<forall>w\<in>set (words (two_rows [''AT''])). length w \<noteq> vlength row_A"
    by (simp add: two_rows_def row_A_def)
  from solve_unfillable_slot [OF wf v len, of 0 False]
    solve_unfillable_slot [OF wf v len, of 0 True]
  show ?thesis by simp
qed

subsection \<open>What the propagation loop establishes and what it leaves alone\<close>

lemma supported_True:
  "supported cw x y val_x dy = Inr True \<Longrightarrow>
   \<exists>val_y\<in>set dy. val_x \<noteq> val_y \<and> overlap_satisfied cw x y val_x val_y = Inr True"
proof (induction dy)
  case Nil
  then show ?case by simp
next
  case (Cons val_y rest)
  show ?case
  proof (cases "val_x \<noteq> val_y \<and> overlap_satisfied cw x y val_x val_y = Inr True")
    case True
    then show ?thesis by simp
  next
    case False
    with Cons.prems have "supported cw x y val_x rest = Inr True"
      by (auto split: sum.splits if_splits)
    from Cons.IH [OF this] show ?thesis by simp
  qed
qed

lemma supported_False:
  "supported cw x y val_x dy = Inr False \<Longrightarrow> val_y \<in> set dy \<Longrightarrow> val_x \<noteq> val_y \<Longrightarrow>
   overlap_satisfied cw x y val_x val_y = Inr False"
proof (induction dy)
  case Nil
  then show ?case by simp
next
  case (Cons v rest)
  show ?case
  proof (cases "val_x = v")
    case True
    with Cons show ?thesis by auto
  next
    case False
    with Cons.prems(1) have os: "overlap_satisfied cw x y val_x v = Inr False"
      and r: "supported cw x y val_x rest = Inr False"
      by (auto split: sum.splits if_splits)
    show ?thesis
    proof (cases "val_y = v")
      case True
      with os show ?thesis by simp
    next
      case False
      with Cons.prems(2) have "val_y \<in> set rest" by simp
      from Cons.IH [OF r this Cons.prems(3)] show ?thesis .
    qed
  qed
qed

lemma revise_scan_member:
  "revise_scan cw d x y vs = Inr to_remove \<Longrightarrow> val_x \<in> set vs \<Longrightarrow>
   supported cw x y val_x (domain_of d y) = Inr (val_x \<notin> set to_remove)"
proof (induction vs arbitrary: to_remove)
  case Nil
  then show ?case by simp
next
  case (Cons v rest)
  from Cons.prems(1) obtain dy c rem where
    dy: "map_of d y = Some dy" and c: "supported cw x y v dy = Inr c"
    and rem: "revise_scan cw d x y rest = Inr rem"
    and tr: "to_remove = (if c then rem else v # rem)"
    by (auto simp: lookup_def split: sum.splits option.splits)
  from dy have dom: "domain_of d y = dy" by (simp add: domain_of_def)
  from revise_scan_subset [OF rem] have sub: "set rem \<subseteq> set rest" .
  show ?case
  proof (cases "val_x = v")
    case True
    show ?thesis
    proof (cases c)
      case ct: True
      have "v \<notin> set rem"
      proof
        assume "v \<in> set rem"
        with sub True have "val_x \<in> set rest" by blast
        from Cons.IH [OF rem this] c dom \<open>v \<in> set rem\<close> ct True show False by simp
      qed
      with True c ct tr dom show ?thesis by simp
    next
      case cf: False
      with True c tr dom show ?thesis by simp
    qed
  next
    case False
    with Cons.prems(2) have "val_x \<in> set rest" by simp
    from Cons.IH [OF rem this] False tr show ?thesis by simp
  qed
qed

lemma domain_of_update:
  "domain_of (AList.update x ws d) u = (if u = x then ws else domain_of d u)"
  by (simp add: domain_of_def update_conv')

lemma revise_effect:
  assumes "revise cw d x y = Inr (revised, d1)"
  shows "u \<noteq> x \<Longrightarrow> domain_of d1 u = domain_of d u"
    and "set (domain_of d1 x) \<subseteq> set (domain_of d x)"
    and "val_x \<in> set (domain_of d x) \<Longrightarrow>
         supported cw x y val_x (domain_of d y) = Inr (val_x \<in> set (domain_of d1 x))"
    and "\<not> revised \<Longrightarrow> d1 = d"
    and "x \<in> set (map fst d)"
proof -
  from assms obtain dx to_remove where
    dx: "map_of d x = Some dx" and
    scan: "revise_scan cw d x y dx = Inr to_remove" and
    rev: "revised = (to_remove \<noteq> [])" and
    d1: "d1 = AList.update x (filter (\<lambda>w. w \<notin> set to_remove) dx) d"
    by (auto simp: revise_def lookup_def split: option.splits sum.splits)
  from dx have dom: "domain_of d x = dx" by (simp add: domain_of_def)
  show "domain_of d1 u = domain_of d u" if "u \<noteq> x"
    using that unfolding d1 by (simp add: domain_of_update)
  show "set (domain_of d1 x) \<subseteq> set (domain_of d x)"
    unfolding d1 dom by (auto simp: domain_of_update)
  show "supported cw x y val_x (domain_of d y) = Inr (val_x \<in> set (domain_of d1 x))"
    if "val_x \<in> set (domain_of d x)"
  proof -
    from that dom have m: "val_x \<in> set dx" by simp
    from revise_scan_member [OF scan m] m show ?thesis
      unfolding d1 by (simp add: domain_of_update)
  qed
  show "d1 = d" if "\<not> revised"
  proof -
    from that rev have "to_remove = []" by simp
    then have "d1 = AList.update x dx d" unfolding d1 by simp
    with update_triv [OF dx] show ?thesis by simp
  qed
  from map_of_Some_key [OF dx] show "x \<in> set (map fst d)" .
qed

lemma overlap_satisfied_sym:
  assumes wf: "wf_crossword cw" and x: "x \<in> set (variables cw)"
    and y: "y \<in> set (variables cw)" and ne: "x \<noteq> y"
    and os: "overlap_satisfied cw y x val_y val_x = Inr True"
  shows "overlap_satisfied cw x y val_x val_y = Inr True"
proof -
  from wf y x ne have
    "case overlaps cw (y, x) of None \<Rightarrow> False
     | Some None \<Rightarrow> overlaps cw (x, y) = Some None
     | Some (Some (i, j)) \<Rightarrow>
         i < vlength y \<and> j < vlength x \<and> overlaps cw (x, y) = Some (Some (j, i))"
    unfolding wf_crossword_def by (metis (no_types, lifting))
  with os show ?thesis
    unfolding overlap_satisfied_def
    by (auto split: option.splits if_splits)
qed

lemma arcs_settledI:
  assumes "\<And>a b. (a, b) \<in> S \<Longrightarrow> a \<in> set (neighbors cw b) \<Longrightarrow> (a, b) \<notin> set arcs \<Longrightarrow>
             arc_consistent cw d a b"
  shows "arcs_settled cw S d arcs"
  unfolding arcs_settled_def using assms by blast

lemma arcs_settledD:
  "arcs_settled cw S d arcs \<Longrightarrow> (a, b) \<in> S \<Longrightarrow> a \<in> set (neighbors cw b) \<Longrightarrow>
   (a, b) \<notin> set arcs \<Longrightarrow> arc_consistent cw d a b"
  unfolding arcs_settled_def by blast

lemma revised_arc_consistent:
  assumes rv: "revise cw d x y = Inr (revised, d1)" and ne: "x \<noteq> y"
  shows "arc_consistent cw d1 x y"
  unfolding arc_consistent_def
proof
  fix val_x
  assume m1: "val_x \<in> set (domain_of d1 x)"
  with revise_effect(2) [OF rv] have m: "val_x \<in> set (domain_of d x)" by blast
  from revise_effect(3) [OF rv m] m1
  have "supported cw x y val_x (domain_of d y) = Inr True" by simp
  from supported_True [OF this] revise_effect(1) [OF rv, of y] ne
  show "\<exists>val_y\<in>set (domain_of d1 y).
          val_x \<noteq> val_y \<and> overlap_satisfied cw x y val_x val_y = Inr True"
    by simp
qed

lemma reverse_arc_stays_consistent:
  assumes wf: "wf_crossword cw" and keys: "map fst d = variables cw"
    and rv: "revise cw d x y = Inr (revised, d1)"
    and y: "y \<in> set (neighbors cw x)"
    and ac: "arc_consistent cw d y x"
  shows "arc_consistent cw d1 y x"
  unfolding arc_consistent_def
proof
  fix val_y
  assume "val_y \<in> set (domain_of d1 y)"
  from neighbors_subset [OF y] have yv: "y \<in> set (variables cw)" and ne: "y \<noteq> x" by simp_all
  from revise_effect(5) [OF rv] keys have xv: "x \<in> set (variables cw)" by simp
  from revise_effect(1) [OF rv ne] \<open>val_y \<in> set (domain_of d1 y)\<close>
  have my: "val_y \<in> set (domain_of d y)" by simp
  with ac obtain val_x where mx: "val_x \<in> set (domain_of d x)" and d: "val_y \<noteq> val_x"
    and os: "overlap_satisfied cw y x val_y val_x = Inr True"
    unfolding arc_consistent_def by blast
  from ne have ne': "x \<noteq> y" by simp
  have os': "overlap_satisfied cw x y val_x val_y = Inr True"
    by (rule overlap_satisfied_sym [OF wf xv yv ne' os])
  have "val_x \<in> set (domain_of d1 x)"
  proof (rule ccontr)
    assume "val_x \<notin> set (domain_of d1 x)"
    with revise_effect(3) [OF rv mx]
    have "supported cw x y val_x (domain_of d y) = Inr False" by simp
    from supported_False [OF this my] d os' show False by simp
  qed
  with d os show "\<exists>val_x\<in>set (domain_of d1 x).
          val_y \<noteq> val_x \<and> overlap_satisfied cw y x val_y val_x = Inr True"
    by blast
qed

lemma shrunk_arc_stays_consistent:
  assumes rv: "revise cw d x y = Inr (revised, d1)" and b: "b \<noteq> x"
    and ac: "arc_consistent cw d a b"
  shows "arc_consistent cw d1 a b"
  unfolding arc_consistent_def
proof
  fix val_a
  assume m1: "val_a \<in> set (domain_of d1 a)"
  have "set (domain_of d1 a) \<subseteq> set (domain_of d a)"
    using revise_effect(1) [OF rv, of a] revise_effect(2) [OF rv] by (cases "a = x") auto
  with m1 have "val_a \<in> set (domain_of d a)" by blast
  with ac obtain val_b where "val_b \<in> set (domain_of d b)" "val_a \<noteq> val_b"
    "overlap_satisfied cw a b val_a val_b = Inr True"
    unfolding arc_consistent_def by blast
  with revise_effect(1) [OF rv b]
  show "\<exists>val_b\<in>set (domain_of d1 b).
          val_a \<noteq> val_b \<and> overlap_satisfied cw a b val_a val_b = Inr True"
    by auto
qed

lemma arcs_settled_revised:
  assumes wf: "wf_crossword cw" and keys: "map fst d = variables cw"
    and rv: "revise cw d x y = Inr (revised, d1)"
    and inv: "arcs_settled cw S d ((x, y) # rest)"
  shows "arcs_settled cw S d1
           (rev (map (\<lambda>z. (z, x)) (filter (\<lambda>z. z \<noteq> y) (neighbors cw x))) @ rest)"
proof (rule arcs_settledI)
  fix a b
  assume S: "(a, b) \<in> S" and n: "a \<in> set (neighbors cw b)"
    and q: "(a, b) \<notin> set (rev (map (\<lambda>z. (z, x)) (filter (\<lambda>z. z \<noteq> y) (neighbors cw x))) @ rest)"
  from neighbors_subset [OF n] have ab: "a \<noteq> b" by simp
  from q have q1: "(a, b) \<notin> set rest" and q2: "b = x \<Longrightarrow> a = y" using n by auto
  show "arc_consistent cw d1 a b"
  proof (cases "(a, b) = (x, y)")
    case True
    with ab revised_arc_consistent [OF rv] show ?thesis by simp
  next
    case False
    with q1 have "(a, b) \<notin> set ((x, y) # rest)" by simp
    from arcs_settledD [OF inv S n this] have ac: "arc_consistent cw d a b" .
    show ?thesis
    proof (cases "b = x")
      case True
      with q2 n ac reverse_arc_stays_consistent [OF wf keys rv] show ?thesis by simp
    next
      case False
      from shrunk_arc_stays_consistent [OF rv False ac] show ?thesis .
    qed
  qed
qed

lemma arcs_settled_unrevised:
  assumes rv: "revise cw d x y = Inr (False, d1)"
    and inv: "arcs_settled cw S d ((x, y) # rest)"
  shows "arcs_settled cw S d rest"
proof (rule arcs_settledI)
  fix a b
  assume S: "(a, b) \<in> S" and n: "a \<in> set (neighbors cw b)" and q: "(a, b) \<notin> set rest"
  from neighbors_subset [OF n] have ab: "a \<noteq> b" by simp
  from revise_effect(4) [OF rv] have same: "d1 = d" by simp
  show "arc_consistent cw d a b"
  proof (cases "(a, b) = (x, y)")
    case True
    with ab revised_arc_consistent [OF rv] same show ?thesis by simp
  next
    case False
    with q have "(a, b) \<notin> set ((x, y) # rest)" by simp
    from arcs_settledD [OF inv S n this] show ?thesis .
  qed
qed

lemma ac3_loop_settles:
  "ac3_loop cw d arcs = Inr (True, d') \<Longrightarrow> wf_crossword cw \<Longrightarrow>
   map fst d = variables cw \<Longrightarrow> arcs_settled cw S d arcs \<Longrightarrow> arcs_settled cw S d' []"
proof (induction cw d arcs rule: ac3_loop.induct)
  case (1 cw d)
  then show ?case by simp
next
  case (2 cw d domain_x domain_y arcs)
  from "2.prems"(1) obtain revised d1 where
    rv: "revise cw d domain_x domain_y = Inr (revised, d1)"
    by (cases "revise cw d domain_x domain_y") auto
  from revise_shrinks [OF rv] "2.prems"(3) have k1: "map fst d1 = variables cw"
    by (simp add: shrinks_def)
  show ?case
  proof (cases revised)
    case False
    with "2.prems"(1) rv have run: "ac3_loop cw d1 arcs = Inr (True, d')" by simp
    from rv False have rv': "revise cw d domain_x domain_y = Inr (False, d1)" by simp
    from revise_effect(4) [OF rv'] have same: "d1 = d" by simp
    from arcs_settled_unrevised [OF rv' "2.prems"(4)] same
    have "arcs_settled cw S d1 arcs" by simp
    from "2.IH"(2) [OF rv refl False run "2.prems"(2) k1 this] show ?thesis .
  next
    case True
    with "2.prems"(1) rv obtain dx where dx: "lookup d1 domain_x = Inr dx"
      by (cases "lookup d1 domain_x") auto
    let ?arcs = "rev (map (\<lambda>domain_z. (domain_z, domain_x))
                       (filter (\<lambda>domain_z. domain_z \<noteq> domain_y)
                          (neighbors cw domain_x))) @ arcs"
    from "2.prems"(1) rv True dx have ne: "dx \<noteq> []" by (cases "dx = []") auto
    with "2.prems"(1) rv True dx have run: "ac3_loop cw d1 ?arcs = Inr (True, d')" by simp
    have "arcs_settled cw S d1 ?arcs"
      by (rule arcs_settled_revised [OF "2.prems"(2,3) rv "2.prems"(4)])
    from "2.IH"(1) [OF rv refl True dx ne run "2.prems"(2) k1 this] show ?thesis .
  qed
qed


lemma set_all_arcs:
  "set (all_arcs d) = {(x, y). x \<in> set (map fst d) \<and> y \<in> set (map fst d) \<and> x \<noteq> y}"
  by (auto simp: all_arcs_def)

lemma arcs_settled_all:
  assumes "map fst d = variables cw"
  shows "arcs_settled cw {(a, b). b \<in> set (variables cw)} d (rev (all_arcs d))"
proof (rule arcs_settledI)
  fix a b
  assume "(a, b) \<in> {(a, b). b \<in> set (variables cw)}" and n: "a \<in> set (neighbors cw b)"
    and q: "(a, b) \<notin> set (rev (all_arcs d))"
  with neighbors_subset [OF n] assms have "(a, b) \<in> set (all_arcs d)"
    unfolding set_all_arcs by simp
  with q show "arc_consistent cw d a b" by simp
qed

text \<open>
  C5: in a well-formed puzzle, when \<open>ac3\<close> is called with no queue on a dict
  whose keys are the slots and returns success, then for every two neighbouring
  slots \<open>x\<close> and \<open>y\<close> every word left in the domain of \<open>x\<close> has a word in the
  domain of \<open>y\<close> that differs from it and agrees with it on the shared cell.
\<close>

theorem ac3_arc_consistent:
  assumes wf: "wf_crossword cw" and keys: "map fst d = variables cw"
    and run: "ac3 cw d None = Inr (True, d')"
    and x: "x \<in> set (neighbors cw y)" and y: "y \<in> set (variables cw)"
  shows "\<forall>val_x\<in>set (domain_of d' x). \<exists>val_y\<in>set (domain_of d' y).
           val_x \<noteq> val_y \<and> overlap_satisfied cw x y val_x val_y = Inr True"
proof -
  from run have "ac3_loop cw d (rev (all_arcs d)) = Inr (True, d')" by (simp add: ac3_def)
  from ac3_loop_settles [OF this wf keys arcs_settled_all [OF keys]]
  have "arcs_settled cw {(a, b). b \<in> set (variables cw)} d' []" .
  from arcs_settledD [OF this _ x] y have "arc_consistent cw d' x y" by simp
  then show ?thesis by (simp add: arc_consistent_def)
qed

text \<open>
  C5 at a concrete input: the comb after node consistency, where \<open>ac3\<close> succeeds
  and leaves \<open>comb_domains\<close>; the arc from \<open>slot_Y\<close> to \<open>slot_X\<close>.
\<close>

theorem ac3_arc_consistent_witness:
  "ac3 comb (enforce_node_consistency (cur (init comb))) None = Inr (True, comb_domains) \<and>
   arc_consistent comb comb_domains slot_Y slot_X"
proof -
  have wf: "wf_crossword comb" by code_simp
  have keys: "map fst (enforce_node_consistency (cur (init comb))) = variables comb"
    by code_simp
  have run: "ac3 comb (enforce_node_consistency (cur (init comb))) None =
             Inr (True, comb_domains)" by code_simp
  have x: "slot_Y \<in> set (neighbors comb slot_X)" by code_simp
  have y: "slot_X \<in> set (variables comb)" by code_simp
  from ac3_arc_consistent [OF wf keys run x y] run show ?thesis
    by (simp add: arc_consistent_def)
qed

subsection \<open>The queue of \<open>ac3\<close>\<close>




subsection \<open>The steps of the interleaved search and the invariants of both searches\<close>

lemma backtrack_ac3_Suc:
  "backtrack_ac3 (Suc fuel) cw st0 a =
     (if assignment_complete (cur (count_call st0)) a
      then Inr (Some a, a, count_call st0)
      else (case select_unassigned_variable cw (cur (count_call st0)) a of
              Inl e \<Rightarrow> Inl e
            | Inr var \<Rightarrow>
                (case order_domain_values cw (cur (fst (deepcopy (count_call st0)))) var a of
                   Inl e \<Rightarrow> Inl e
                 | Inr vals \<Rightarrow>
                     backtrack_ac3_loop fuel cw (fst (deepcopy (count_call st0))) a var
                       (snd (deepcopy (count_call st0))) vals)))"
  by (simp only: backtrack_ac3.simps Let_def case_prod_beta)

lemma backtrack_ac3_Suc_cases:
  assumes "backtrack_ac3 (Suc fuel) cw st0 a = Inr res"
  shows "(assignment_complete (cur (count_call st0)) a \<and> res = (Some a, a, count_call st0)) \<or>
         (\<not> assignment_complete (cur (count_call st0)) a \<and>
          (\<exists>var vals. select_unassigned_variable cw (cur (count_call st0)) a = Inr var \<and>
             order_domain_values cw (cur (fst (deepcopy (count_call st0)))) var a = Inr vals \<and>
             backtrack_ac3_loop fuel cw (fst (deepcopy (count_call st0))) a var
               (snd (deepcopy (count_call st0))) vals = Inr res))"
  using assms unfolding backtrack_ac3_Suc
  by (auto split: if_splits sum.splits)

lemma backtrack_ac3_loop_Cons_cases:
  assumes "backtrack_ac3_loop fuel cw st0 a0 var copy (val # rest) = Inr res"
  obtains (inconsistent) a2 where
      "consistent cw (AList.update var val a0) = Inr False"
      "del var (AList.update var val a0) = Inr a2"
      "backtrack_ac3_loop fuel cw (rebind (count_word st0) copy) a2 var copy rest = Inr res"
  | (found) b d3 r1 a1 st1 where
      "consistent cw (AList.update var val a0) = Inr True"
      "ac3 cw (cur (put (count_word st0) (AList.update var [val] (cur (count_word st0)))))
         (Some (map (\<lambda>other_var. (other_var, var)) (neighbors cw var))) = Inr (b, d3)"
      "backtrack_ac3 fuel cw
         (put (put (count_word st0) (AList.update var [val] (cur (count_word st0)))) d3)
         (AList.update var val a0) = Inr (r1, a1, st1)"
      "truthy r1" "res = (r1, a1, st1)"
  | (failed) b d3 r1 a1 st1 a2 where
      "consistent cw (AList.update var val a0) = Inr True"
      "ac3 cw (cur (put (count_word st0) (AList.update var [val] (cur (count_word st0)))))
         (Some (map (\<lambda>other_var. (other_var, var)) (neighbors cw var))) = Inr (b, d3)"
      "backtrack_ac3 fuel cw
         (put (put (count_word st0) (AList.update var [val] (cur (count_word st0)))) d3)
         (AList.update var val a0) = Inr (r1, a1, st1)"
      "\<not> truthy r1" "del var a1 = Inr a2"
      "backtrack_ac3_loop fuel cw (rebind st1 copy) a2 var copy rest = Inr res"
  using assms
  by (simp add: Let_def split: if_splits sum.splits prod.splits)

lemma dom_inv_shrinks: "dom_inv cw d \<Longrightarrow> shrinks d d' \<Longrightarrow> dom_inv cw d'"
  unfolding dom_inv_def
proof (intro conjI allI impI)
  assume a: "map fst d = variables cw \<and>
      (\<forall>u ws. map_of d u = Some ws \<longrightarrow> set ws \<subseteq> set (words cw))" and s: "shrinks d d'"
  from s have k: "map fst d' = map fst d" by (simp add: shrinks_def)
  with a show "map fst d' = variables cw" by simp
  fix u ws'
  assume c: "map_of d' u = Some ws'"
  from map_of_Some_key [OF c] have "u \<in> set (map fst d)" unfolding k .
  from key_map_of_Some [OF this] obtain ws where ws: "map_of d u = Some ws" ..
  with s c have "set ws' \<subseteq> set ws" unfolding shrinks_def by fastforce
  with a ws show "set ws' \<subseteq> set (words cw)" by blast
qed

lemma ac3_shrinks: "ac3 cw d arcs = Inr (b, d') \<Longrightarrow> shrinks d d'"
  unfolding ac3_def
  by (auto split: option.splits list.splits dest: ac3_loop_shrinks)

lemma dom_inv_collapse:
  assumes "dom_inv cw d" "var \<in> set (variables cw)" "val \<in> set (words cw)"
  shows "dom_inv cw (AList.update var [val] d)"
proof -
  from assms(1,2) have "var \<in> set (map fst d)" by (simp add: dom_inv_def)
  from key_map_of_Some [OF this] obtain ws where "map_of d var = Some ws" ..
  from map_fst_update [OF this] assms show ?thesis
    by (auto simp: dom_inv_def update_conv' split: if_splits)
qed

lemma store_inv_count_call [simp]: "store_inv cw (count_call st) = store_inv cw st"
  by (simp add: store_inv_def)

lemma store_inv_count_word [simp]: "store_inv cw (count_word st) = store_inv cw st"
  by (simp add: store_inv_def)

lemma store_inv_cur: "store_inv cw st \<Longrightarrow> dom_inv cw (cur st)"
  by (simp add: store_inv_def cur_def)

lemma store_inv_put:
  assumes "store_inv cw st" "dom_inv cw d"
  shows "store_inv cw (put st d)"
proof -
  have "set ((store st)[self_domains st := d]) \<subseteq> insert d (set (store st))"
    by (rule set_update_subset_insert)
  with assms show ?thesis by (auto simp: store_inv_def put_def)
qed

lemma store_put [simp]: "length (store (put st d)) = length (store st)"
  by (simp add: put_def)

lemma store_inv_deepcopy:
  assumes "store_inv cw st"
  shows "store_inv cw (fst (deepcopy st))"
    and "snd (deepcopy st) < length (store (fst (deepcopy st)))"
    and "length (store (fst (deepcopy st))) = Suc (length (store st))"
  using assms by (auto simp: store_inv_def deepcopy_def cur_def)

lemma store_inv_rebind:
  "store_inv cw st \<Longrightarrow> copy < length (store st) \<Longrightarrow> store_inv cw (rebind st copy)"
  by (simp add: store_inv_def rebind_def)

lemma store_rebind [simp]: "store (rebind st copy) = store st"
  by (simp add: rebind_def)

lemma set_update_subset: "set (AList.update k v al) \<subseteq> insert (k, v) (set al)"
  by (induction al) auto

lemma asg_inv_update:
  "asg_inv cw a \<Longrightarrow> val \<in> set (words cw) \<Longrightarrow> asg_inv cw (AList.update var val a)"
  using set_update_subset [of var val a] by (auto simp: asg_inv_def)

lemma asg_inv_del: "asg_inv cw a \<Longrightarrow> del var a = Inr a' \<Longrightarrow> asg_inv cw a'"
  by (auto simp: asg_inv_def del_def AList.delete_eq split: if_splits)

lemma select_unassigned_variable_key:
  assumes "select_unassigned_variable cw d a = Inr var"
  shows "var \<in> set (map fst d)"
proof -
  let ?ys = "sort_key (mrv_key cw d) (filter (\<lambda>var. var \<notin> fst ` set a) (map fst d))"
  from assms obtain rest where "?ys = var # rest"
    by (auto simp: select_unassigned_variable_def split: list.splits)
  then have "var \<in> set ?ys" by simp
  then show ?thesis by simp
qed

lemma values_ruleout_keys:
  "values_ruleout cw d var vals = Inr counts \<Longrightarrow> map fst counts = vals"
  by (induction vals arbitrary: counts) (auto split: sum.splits)

lemma order_domain_values_set:
  assumes "order_domain_values cw d var a = Inr vals"
  shows "\<exists>ws. map_of d var = Some ws \<and> set vals = set ws"
proof -
  from assms obtain ws counts where ws: "map_of d var = Some ws"
    and c: "values_ruleout cw d var ws = Inr counts"
    and v: "vals = map fst (sort_key snd counts)"
    by (auto simp: order_domain_values_def lookup_def split: option.splits sum.splits)
  have "set vals = set (map fst counts)" unfolding v by simp
  with values_ruleout_keys [OF c] ws show ?thesis by simp
qed

lemma complete_all:
  "assignment_complete d a \<Longrightarrow> map fst d = variables cw \<Longrightarrow>
   list_all (\<lambda>v. v \<in> fst ` set a) (variables cw)"
  by (simp add: assignment_complete_def)

lemma search_post_weaken:
  assumes "search_post cw st1 a res" and "length (store st) \<le> length (store st1)"
  shows "search_post cw st a res"
proof -
  obtain r a' st' where res: "res = (r, a', st')" by (cases res)
  show ?thesis using assms unfolding res search_post_def by (cases r) simp_all
qed

lemma backtrack_ac3_loop_post:
  assumes bt: "\<And>st a res. store_inv cw st \<Longrightarrow> asg_inv cw a \<Longrightarrow>
                 backtrack_ac3 fuel cw st a = Inr res \<Longrightarrow> search_post cw st a res"
    and var: "var \<in> set (variables cw)"
  shows "store_inv cw st \<Longrightarrow> asg_inv cw a \<Longrightarrow> copy < length (store st) \<Longrightarrow>
         set vals \<subseteq> set (words cw) \<Longrightarrow>
         backtrack_ac3_loop fuel cw st a var copy vals = Inr res \<Longrightarrow>
         search_post cw st a res \<and> (fst res \<noteq> None \<longrightarrow> consistent cw (fst (snd res)) = Inr True)"
proof (induction vals arbitrary: st a)
  case Nil
  from Nil.prems(5) have "res = (None, a, st)" by simp
  with Nil.prems(1,2) show ?case by (simp add: search_post_def)
next
  case (Cons val rest)
  from Cons.prems(4) have val: "val \<in> set (words cw)" and rest: "set rest \<subseteq> set (words cw)"
    by simp_all
  have a1: "asg_inv cw (AList.update var val a)"
    by (rule asg_inv_update [OF Cons.prems(2) val])
  from Cons.prems(5) show ?case
  proof (cases rule: backtrack_ac3_loop_Cons_cases)
    case (inconsistent a2)
    have 1: "store_inv cw (rebind (count_word st) copy)"
      using Cons.prems(1,3) by (simp add: store_inv_rebind)
    have 2: "asg_inv cw a2" by (rule asg_inv_del [OF a1 inconsistent(2)])
    have 3: "copy < length (store (rebind (count_word st) copy))" using Cons.prems(3) by simp
    from Cons.IH [OF 1 2 3 rest inconsistent(3)] show ?thesis
      by (simp add: search_post_def split: prod.splits option.splits)
  next
    case (found b d3 r1 a1' st1)
    let ?st2 = "put (count_word st) (AList.update var [val] (cur (count_word st)))"
    have c: "dom_inv cw (AList.update var [val] (cur (count_word st)))"
      using Cons.prems(1) by (intro dom_inv_collapse [OF _ var val]) (simp add: store_inv_cur)
    then have s2: "store_inv cw ?st2" using Cons.prems(1) by (simp add: store_inv_put)
    have "dom_inv cw d3"
      by (rule dom_inv_shrinks [OF store_inv_cur [OF s2] ac3_shrinks [OF found(2)]])
    then have s3: "store_inv cw (put ?st2 d3)" by (rule store_inv_put [OF s2])
    from bt [OF s3 a1 found(3)] found(1,4,5) show ?thesis
      by (auto simp: search_post_def truthy_def split: option.splits)
  next
    case (failed b d3 r1 a1' st1 a2)
    let ?st2 = "put (count_word st) (AList.update var [val] (cur (count_word st)))"
    have c: "dom_inv cw (AList.update var [val] (cur (count_word st)))"
      using Cons.prems(1) by (intro dom_inv_collapse [OF _ var val]) (simp add: store_inv_cur)
    then have s2: "store_inv cw ?st2" using Cons.prems(1) by (simp add: store_inv_put)
    have "dom_inv cw d3"
      by (rule dom_inv_shrinks [OF store_inv_cur [OF s2] ac3_shrinks [OF failed(2)]])
    then have s3: "store_inv cw (put ?st2 d3)" by (rule store_inv_put [OF s2])
    from bt [OF s3 a1 failed(3)] have
      p: "store_inv cw st1" "length (store st) \<le> length (store st1)" "asg_inv cw a1'"
      by (simp_all add: search_post_def)
    from p(2) Cons.prems(3) have 3: "copy < length (store st1)" by simp
    have 1: "store_inv cw (rebind st1 copy)" by (rule store_inv_rebind [OF p(1) 3])
    have 2: "asg_inv cw a2" by (rule asg_inv_del [OF p(3) failed(5)])
    from 3 have 4: "copy < length (store (rebind st1 copy))" by simp
    from Cons.IH [OF 1 2 4 rest failed(6)] p(2) show ?thesis
      by (simp add: search_post_def split: prod.splits option.splits)
  qed
qed

lemma backtrack_ac3_post:
  "store_inv cw st \<Longrightarrow> asg_inv cw a \<Longrightarrow> backtrack_ac3 fuel cw st a = Inr res \<Longrightarrow>
   search_post cw st a res"
proof (induction fuel arbitrary: st a res)
  case 0
  then show ?case by simp
next
  case (Suc fuel)
  from backtrack_ac3_Suc_cases [OF Suc.prems(3)] show ?case
  proof (elim disjE conjE exE)
    assume "assignment_complete (cur (count_call st)) a" "res = (Some a, a, count_call st)"
    with Suc.prems(1,2) complete_all [of "cur st" a cw] store_inv_cur [OF Suc.prems(1)]
    show ?thesis by (simp add: search_post_def dom_inv_def)
  next
    fix var vals
    let ?st1 = "fst (deepcopy (count_call st))"
    let ?copy = "snd (deepcopy (count_call st))"
    assume sel: "select_unassigned_variable cw (cur (count_call st)) a = Inr var"
      and ord: "order_domain_values cw (cur ?st1) var a = Inr vals"
      and loop: "backtrack_ac3_loop fuel cw ?st1 a var ?copy vals = Inr res"
    have sc: "store_inv cw (count_call st)" using Suc.prems(1) by simp
    note dc = store_inv_deepcopy [OF sc]
    have k: "map fst (cur (count_call st)) = variables cw"
      using store_inv_cur [OF Suc.prems(1)] by (simp add: dom_inv_def)
    from select_unassigned_variable_key [OF sel]
    have var: "var \<in> set (variables cw)" unfolding k .
    from order_domain_values_set [OF ord] obtain ws where
      ws: "map_of (cur ?st1) var = Some ws" "set vals = set ws" by blast
    from store_inv_cur [OF dc(1)] ws(1) have "set ws \<subseteq> set (words cw)"
      unfolding dom_inv_def by blast
    then have vals: "set vals \<subseteq> set (words cw)" unfolding ws(2) .
    from backtrack_ac3_loop_post [OF Suc.IH var dc(1) Suc.prems(2) dc(2) vals loop]
    have "search_post cw ?st1 a res" by (rule conjunct1)
    moreover from dc(3) have "length (store st) \<le> length (store ?st1)" by simp
    ultimately show ?thesis by (rule search_post_weaken)
  qed
qed

lemma counters_put [simp]:
  "BACKTRACK_COUNTER (put st d) = BACKTRACK_COUNTER st" "WORDS_TESTED (put st d) = WORDS_TESTED st"
  "self_domains (put st d) = self_domains st"
  by (simp_all add: put_def)

lemma counters_count_word [simp]:
  "BACKTRACK_COUNTER (count_word st) = BACKTRACK_COUNTER st"
  "WORDS_TESTED (count_word st) = WORDS_TESTED st + 1"
  by (simp_all add: count_word_def)

lemma counters_count_call [simp]:
  "BACKTRACK_COUNTER (count_call st) = BACKTRACK_COUNTER st + 1"
  "WORDS_TESTED (count_call st) = WORDS_TESTED st"
  by (simp_all add: count_call_def)

lemma counters_deepcopy [simp]:
  "BACKTRACK_COUNTER (fst (deepcopy st)) = BACKTRACK_COUNTER st"
  "WORDS_TESTED (fst (deepcopy st)) = WORDS_TESTED st"
  by (simp_all add: deepcopy_def)

lemma backtrack_ac3_empty_domain:
  assumes valid: "self_domains st < length (store st)"
    and empty: "map_of (cur st) u = Some []" and u: "u \<notin> fst ` set a"
  shows "backtrack_ac3 (Suc fuel) cw st a = Inr (None, a, fst (deepcopy (count_call st)))"
proof -
  let ?d = "cur st"
  from map_of_Some_key [OF empty] have uk: "u \<in> set (map fst ?d)" .
  with u have inc: "\<not> assignment_complete ?d a"
    by (auto simp: assignment_complete_def list_all_iff)
  from select_unassigned_variable_min [OF uk u, of cw] obtain u' where
    sel: "select_unassigned_variable cw ?d a = Inr u'" and u'k: "u' \<in> set (map fst ?d)"
    and le: "mrv_key cw ?d u' \<le> mrv_key cw ?d u" by blast
  from mrv_key_empty [OF empty le u'k] have "map_of ?d u' = Some []" .
  then have ord: "order_domain_values cw ?d u' a = Inr []"
    by (rule order_domain_values_empty)
  have v: "self_domains (count_call st) < length (store (count_call st))"
    using valid by simp
  from cur_deepcopy [OF v] have cd: "cur (fst (deepcopy (count_call st))) = ?d" by simp
  show ?thesis
    unfolding backtrack_ac3_Suc using inc sel ord cd by simp
qed

lemma backtrack_ac3_loop_Cons:
  "backtrack_ac3_loop fuel cw st0 a0 var copy (val # rest) =
     (case consistent cw (AList.update var val a0) of
        Inl e \<Rightarrow> Inl e
      | Inr ok \<Rightarrow>
          if ok
          then (case ac3 cw (cur (put (count_word st0)
                               (AList.update var [val] (cur (count_word st0)))))
                       (Some (map (\<lambda>other_var. (other_var, var)) (neighbors cw var))) of
                  Inl e \<Rightarrow> Inl e
                | Inr (b, d3) \<Rightarrow>
                    (case backtrack_ac3 fuel cw
                            (put (put (count_word st0)
                                    (AList.update var [val] (cur (count_word st0)))) d3)
                            (AList.update var val a0) of
                       Inl e \<Rightarrow> Inl e
                     | Inr (result, a1, st1) \<Rightarrow>
                         if truthy result then Inr (result, a1, st1)
                         else (case del var a1 of
                                 Inl e \<Rightarrow> Inl e
                               | Inr a2 \<Rightarrow>
                                   backtrack_ac3_loop fuel cw (rebind st1 copy) a2 var copy
                                     rest)))
          else (case del var (AList.update var val a0) of
                  Inl e \<Rightarrow> Inl e
                | Inr a2 \<Rightarrow>
                    backtrack_ac3_loop fuel cw (rebind (count_word st0) copy) a2 var copy rest))"
  by (simp only: backtrack_ac3_loop.simps Let_def)

lemma backtrack_loop_post:
  assumes bt: "\<And>st a res. store_inv cw st \<Longrightarrow> asg_inv cw a \<Longrightarrow>
                 backtrack fuel cw st a = Inr res \<Longrightarrow> search_post cw st a res"
  shows "store_inv cw st \<Longrightarrow> asg_inv cw a \<Longrightarrow> set vals \<subseteq> set (words cw) \<Longrightarrow>
         backtrack_loop fuel cw st a var vals = Inr res \<Longrightarrow>
         search_post cw st a res \<and> (fst res \<noteq> None \<longrightarrow> consistent cw (fst (snd res)) = Inr True)"
proof (induction vals arbitrary: st a)
  case Nil
  from Nil.prems(4) have "res = (None, a, st)" by simp
  with Nil.prems(1,2) show ?case by (simp add: search_post_def)
next
  case (Cons val rest)
  from Cons.prems(3) have val: "val \<in> set (words cw)" and rest: "set rest \<subseteq> set (words cw)"
    by simp_all
  have a1: "asg_inv cw (AList.update var val a)"
    by (rule asg_inv_update [OF Cons.prems(2) val])
  have s1: "store_inv cw (count_word st)" using Cons.prems(1) by simp
  from Cons.prems(4) show ?case
  proof (cases rule: backtrack_loop_Cons_cases)
    case (inconsistent a2)
    have 2: "asg_inv cw a2" by (rule asg_inv_del [OF a1 inconsistent(2)])
    from Cons.IH [OF s1 2 rest inconsistent(3)] show ?thesis
      by (simp add: search_post_def split: prod.splits option.splits)
  next
    case (found r1 a1' st1)
    from bt [OF s1 a1 found(2)] found(1,3,4) show ?thesis
      by (auto simp: search_post_def truthy_def split: option.splits)
  next
    case (failed r1 a1' st1 a2)
    from bt [OF s1 a1 failed(2)] have
      p: "store_inv cw st1" "length (store st) \<le> length (store st1)" "asg_inv cw a1'"
      by (simp_all add: search_post_def)
    have 2: "asg_inv cw a2" by (rule asg_inv_del [OF p(3) failed(4)])
    from Cons.IH [OF p(1) 2 rest failed(5)] p(2) show ?thesis
      by (simp add: search_post_def split: prod.splits option.splits)
  qed
qed

lemma backtrack_post:
  "store_inv cw st \<Longrightarrow> asg_inv cw a \<Longrightarrow> backtrack fuel cw st a = Inr res \<Longrightarrow>
   search_post cw st a res"
proof (induction fuel arbitrary: st a res)
  case 0
  then show ?case by simp
next
  case (Suc fuel)
  from backtrack_Suc_cases [OF Suc.prems(3)] show ?case
  proof (elim disjE conjE exE)
    assume "assignment_complete (cur (count_call st)) a" "res = (Some a, a, count_call st)"
    with Suc.prems(1,2) complete_all [of "cur st" a cw] store_inv_cur [OF Suc.prems(1)]
    show ?thesis by (simp add: search_post_def dom_inv_def)
  next
    fix var vals
    assume ord: "order_domain_values cw (cur (count_call st)) var a = Inr vals"
      and loop: "backtrack_loop fuel cw (count_call st) a var vals = Inr res"
    have sc: "store_inv cw (count_call st)" using Suc.prems(1) by simp
    from order_domain_values_set [OF ord] obtain ws where
      ws: "map_of (cur (count_call st)) var = Some ws" "set vals = set ws" by blast
    from store_inv_cur [OF sc] ws(1) have "set ws \<subseteq> set (words cw)"
      unfolding dom_inv_def by blast
    then have vals: "set vals \<subseteq> set (words cw)" unfolding ws(2) .
    from backtrack_loop_post [OF Suc.IH sc Suc.prems(2) vals loop]
    have "search_post cw (count_call st) a res" by (rule conjunct1)
    moreover have "length (store st) \<le> length (store (count_call st))" by simp
    ultimately show ?thesis by (rule search_post_weaken)
  qed
qed

lemma shrinks_enforce_node_consistency: "shrinks d (enforce_node_consistency d)"
  unfolding shrinks_def
  by (auto simp: map_of_enforce_node_consistency)

lemma dom_inv_init: "dom_inv cw (cur (init cw))"
  unfolding dom_inv_def
proof (intro conjI allI impI)
  show "map fst (cur (init cw)) = variables cw" by (simp add: init_def cur_def comp_def)
  fix u ws
  assume m: "map_of (cur (init cw)) u = Some ws"
  from map_of_SomeD [OF m] show "set ws \<subseteq> set (words cw)"
    by (auto simp: init_def cur_def)
qed

subsection \<open>The report of the seeded \<open>ac3\<close> in the interleaved search\<close>

text \<open>
  C4, as stated, fails: \<open>backtrack_ac3\<close> drops the report of \<open>ac3\<close> and always
  recurses. On the comb with the domains that TREAT left behind, the candidate
  MANGO of \<open>slot_X\<close> passes \<open>consistent\<close>, the seeded \<open>ac3\<close> returns false having
  emptied the domain of \<open>slot_Z\<close>, and the counter of calls still goes from 0 to 1:
  the recursive call has been made.
\<close>

theorem backtrack_ac3_recurses_on_comb:
  "consistent comb [(slot_X, ''MANGO'')] = Inr True \<and>
   ac3 comb (AList.update slot_X [''MANGO''] comb_stale)
     (Some (map (\<lambda>other_var. (other_var, slot_X)) (neighbors comb slot_X))) =
     Inr (False, [(slot_X, [''MANGO'']), (slot_Y, [''TO'']),
                  (slot_W, [''EASY'', ''EVEN'']), (slot_Z, [])]) \<and>
   map_sum id (\<lambda>(result, assignment, st). (result, BACKTRACK_COUNTER st))
     (backtrack_ac3_loop 4 comb (State [comb_stale] 0 0 0) [] slot_X 0 [''MANGO'']) =
     Inr (None, 1)"
  by code_simp

text \<open>
  C4, amended: after a candidate has passed \<open>consistent\<close>, its slot's domain has
  been collapsed and the seeded \<open>ac3\<close> has run, the recursive call is made
  whatever \<open>ac3\<close> reports: what the loop does with the candidate is decided by
  the result of the recursive call on the domains that \<open>ac3\<close> left, and the report
  \<open>b\<close> plays no part. When \<open>ac3\<close> reports failure with the domain of a slot \<open>u\<close>
  that is still unassigned left empty, that recursive call (one more on the
  counter of calls) selects a slot with an empty domain, tests no word and
  returns \<open>None\<close>; the candidate is then deleted from the assignment and the loop
  goes on with the next candidate. The branch fails one call deeper.
\<close>

theorem backtrack_ac3_recurses_whatever_ac3_reports:
  assumes valid: "self_domains st0 < length (store st0)"
    and cons: "consistent cw (AList.update var val a0) = Inr True"
    and run: "ac3 cw (AList.update var [val] (cur st0))
                (Some (map (\<lambda>other_var. (other_var, var)) (neighbors cw var))) = Inr (b, d3)"
  shows "backtrack_ac3_loop fuel cw st0 a0 var copy (val # rest) =
           (case backtrack_ac3 fuel cw (put (count_word st0) d3) (AList.update var val a0) of
              Inl e \<Rightarrow> Inl e
            | Inr (result, a1, st') \<Rightarrow>
                if truthy result then Inr (result, a1, st')
                else (case del var a1 of
                        Inl e \<Rightarrow> Inl e
                      | Inr a2 \<Rightarrow> backtrack_ac3_loop fuel cw (rebind st' copy) a2 var copy rest)) \<and>
         (\<not> b \<and> fuel = Suc n \<and> map_of d3 u = Some [] \<and>
          u \<notin> fst ` set (AList.update var val a0) \<and>
          st1 = fst (deepcopy (count_call (put (count_word st0) d3))) \<longrightarrow>
            backtrack_ac3 fuel cw (put (count_word st0) d3) (AList.update var val a0) =
              Inr (None, AList.update var val a0, st1) \<and>
            BACKTRACK_COUNTER st1 = BACKTRACK_COUNTER st0 + 1 \<and>
            WORDS_TESTED st1 = WORDS_TESTED st0 + 1 \<and>
            backtrack_ac3_loop fuel cw st0 a0 var copy (val # rest) =
              backtrack_ac3_loop fuel cw (rebind st1 copy) (AList.delete var a0) var copy rest)"
proof (intro conjI impI)
  let ?st = "count_word st0"
  let ?a1 = "AList.update var val a0"
  have v: "self_domains ?st < length (store ?st)" using valid by simp
  have c2: "cur (put ?st (AList.update var [val] (cur ?st))) = AList.update var [val] (cur st0)"
    using cur_put [OF v] by simp
  have pp: "put (put ?st (AList.update var [val] (cur ?st))) d3 = put ?st d3" by (rule put_put)
  show step: "backtrack_ac3_loop fuel cw st0 a0 var copy (val # rest) =
           (case backtrack_ac3 fuel cw (put ?st d3) ?a1 of
              Inl e \<Rightarrow> Inl e
            | Inr (result, a1, st') \<Rightarrow>
                if truthy result then Inr (result, a1, st')
                else (case del var a1 of
                        Inl e \<Rightarrow> Inl e
                      | Inr a2 \<Rightarrow> backtrack_ac3_loop fuel cw (rebind st' copy) a2 var copy rest))"
    by (simp only: backtrack_ac3_loop_Cons cons c2 run pp sum.case prod.case if_True)
  assume h: "\<not> b \<and> fuel = Suc n \<and> map_of d3 u = Some [] \<and>
          u \<notin> fst ` set (AList.update var val a0) \<and>
          st1 = fst (deepcopy (count_call (put (count_word st0) d3)))"
  then have fuel: "fuel = Suc n" and empty: "map_of d3 u = Some []"
    and u: "u \<notin> fst ` set ?a1"
    and st1: "st1 = fst (deepcopy (count_call (put ?st d3)))" by simp_all
  have v3: "self_domains (put ?st d3) < length (store (put ?st d3))" using v by simp
  have c3: "cur (put ?st d3) = d3" by (rule cur_put [OF v])
  from empty c3 have e3: "map_of (cur (put ?st d3)) u = Some []" by simp
  show call: "backtrack_ac3 fuel cw (put ?st d3) ?a1 = Inr (None, ?a1, st1)"
    unfolding st1 fuel by (rule backtrack_ac3_empty_domain [OF v3 e3 u])
  have d: "del var ?a1 = Inr (AList.delete var a0)"
    by (simp add: del_def dom_update delete_update_same)
  show "BACKTRACK_COUNTER st1 = BACKTRACK_COUNTER st0 + 1" by (simp add: st1)
  show "WORDS_TESTED st1 = WORDS_TESTED st0 + 1" by (simp add: st1)
  show "backtrack_ac3_loop fuel cw st0 a0 var copy (val # rest) =
          backtrack_ac3_loop fuel cw (rebind st1 copy) (AList.delete var a0) var copy rest"
    by (simp only: step call d truthy_def sum.case prod.case option.case if_False)
qed

text \<open>The amended C4 at a concrete input: the candidate MANGO on the stale comb.\<close>

theorem backtrack_ac3_recurses_whatever_ac3_reports_witness:
  "backtrack_ac3 4 comb
     (put (count_word (State [comb_stale] 0 0 0))
        [(slot_X, [''MANGO'']), (slot_Y, [''TO'']), (slot_W, [''EASY'', ''EVEN'']), (slot_Z, [])])
     [(slot_X, ''MANGO'')] =
   Inr (None, [(slot_X, ''MANGO'')],
        State [[(slot_X, [''MANGO'']), (slot_Y, [''TO'']), (slot_W, [''EASY'', ''EVEN'']),
                (slot_Z, [])],
               [(slot_X, [''MANGO'']), (slot_Y, [''TO'']), (slot_W, [''EASY'', ''EVEN'']),
                (slot_Z, [])]] 0 1 1)"
proof -
  let ?d3 = "[(slot_X, [''MANGO'']), (slot_Y, [''TO'']), (slot_W, [''EASY'', ''EVEN'']),
              (slot_Z, [])]"
  let ?st0 = "State [comb_stale] 0 0 0"
  have valid: "self_domains ?st0 < length (store ?st0)" by simp
  have cons: "consistent comb (AList.update slot_X ''MANGO'' []) = Inr True" by code_simp
  have run: "ac3 comb (AList.update slot_X [''MANGO''] (cur ?st0))
               (Some (map (\<lambda>other_var. (other_var, slot_X)) (neighbors comb slot_X))) =
             Inr (False, ?d3)" by code_simp
  have empty: "map_of ?d3 slot_Z = Some []" by code_simp
  have u: "slot_Z \<notin> fst ` set (AList.update slot_X ''MANGO'' [])" by code_simp
  have st1: "State [?d3, ?d3] 0 1 1 = fst (deepcopy (count_call (put (count_word ?st0) ?d3)))"
    by code_simp
  have fuel: "(4::nat) = Suc 3" by simp
  have h: "\<not> False \<and> (4::nat) = Suc 3 \<and> map_of ?d3 slot_Z = Some [] \<and>
           slot_Z \<notin> fst ` set (AList.update slot_X ''MANGO'' []) \<and>
           State [?d3, ?d3] 0 1 1 = fst (deepcopy (count_call (put (count_word ?st0) ?d3)))"
    by (intro conjI notI fuel empty u st1)
  from backtrack_ac3_recurses_whatever_ac3_reports
    [OF valid cons run, of 4 0 "[]" 3 slot_Z "State [?d3, ?d3] 0 1 1"]
  have "backtrack_ac3 4 comb (put (count_word ?st0) ?d3) (AList.update slot_X ''MANGO'' []) =
          Inr (None, AList.update slot_X ''MANGO'' [], State [?d3, ?d3] 0 1 1)"
    using h by blast
  then show ?thesis by simp
qed

subsection \<open>Soundness of both searches\<close>

text \<open>
  C1: whenever \<open>solve\<close>, on a fresh creator and with either search, returns an
  assignment and not \<open>None\<close>, that assignment gives every slot of the puzzle a word
  of the word list (it is complete), passes \<open>consistent\<close>, and holds no word from
  outside the word list. This holds for every puzzle, word list and recursion
  depth.
\<close>

theorem solve_sound:
  assumes "map_sum id fst (solve fuel cw (init cw) interleaving) = Inr (Some a)"
  shows "(\<forall>v\<in>set (variables cw). \<exists>w\<in>set (words cw). map_of a v = Some w) \<and>
         consistent cw a = Inr True \<and>
         (\<forall>(v, w)\<in>set a. w \<in> set (words cw))"
proof -
  let ?d1 = "enforce_node_consistency (cur (init cw))"
  let ?st1 = "put (init cw) ?d1"
  have valid: "self_domains (init cw) < length (store (init cw))" by (simp add: init_def)
  have c1: "cur ?st1 = ?d1" by (rule cur_put [OF valid])
  from assms obtain b d2 where a: "ac3 cw ?d1 None = Inr (b, d2)"
    by (cases "ac3 cw ?d1 None") (auto simp: solve_def c1 Let_def)
  let ?st2 = "put ?st1 d2"
  have st2: "?st2 = put (init cw) d2" by (rule put_put)
  have i1: "dom_inv cw ?d1"
    by (rule dom_inv_shrinks [OF dom_inv_init shrinks_enforce_node_consistency])
  have i2: "dom_inv cw d2" by (rule dom_inv_shrinks [OF i1 ac3_shrinks [OF a]])
  have s0: "store_inv cw (init cw)"
    using dom_inv_init [of cw] by (simp add: store_inv_def init_def cur_def)
  have s2: "store_inv cw ?st2" unfolding st2 by (rule store_inv_put [OF s0 i2])
  have e: "asg_inv cw []" by (simp add: asg_inv_def)
  let ?run = "if \<not> interleaving then backtrack fuel cw ?st2 [] else backtrack_ac3 fuel cw ?st2 []"
  from assms a obtain a' st' where run: "?run = Inr (Some a, a', st')"
    by (cases ?run) (auto simp: solve_def c1 Let_def split: if_splits)
  have "search_post cw ?st2 [] (Some a, a', st')"
  proof (cases interleaving)
    case True
    with run have "backtrack_ac3 fuel cw ?st2 [] = Inr (Some a, a', st')" by simp
    from backtrack_ac3_post [OF s2 e this] show ?thesis .
  next
    case False
    with run have "backtrack fuel cw ?st2 [] = Inr (Some a, a', st')" by simp
    from backtrack_post [OF s2 e this] show ?thesis .
  qed
  then have eq: "a' = a" and all: "list_all (\<lambda>v. v \<in> fst ` set a) (variables cw)"
    and cons: "consistent cw a = Inr True \<or> a = []" and inv: "asg_inv cw a"
    by (auto simp: search_post_def)
  have c: "consistent cw a = Inr True"
  proof (cases "a = []")
    case True
    then show ?thesis by (simp add: consistent_def)
  next
    case False
    with cons show ?thesis by simp
  qed
  have "\<exists>w\<in>set (words cw). map_of a v = Some w" if "v \<in> set (variables cw)" for v
  proof -
    from that all have "v \<in> set (map fst a)" by (simp add: list_all_iff)
    from key_map_of_Some [OF this] obtain w where w: "map_of a v = Some w" ..
    from map_of_SomeD [OF w] inv have "w \<in> set (words cw)" by (auto simp: asg_inv_def)
    with w show ?thesis by simp
  qed
  with c inv show ?thesis by (auto simp: asg_inv_def)
qed

text \<open>C1 at a concrete input: the fill of the comb that the plain search returns.\<close>

theorem solve_sound_witness:
  "map_sum id fst (solve 5 comb (init comb) False) =
     Inr (Some [(slot_X, ''MANGO''), (slot_Y, ''ME''), (slot_W, ''NOTE''), (slot_Z, ''ON'')]) \<and>
   consistent comb [(slot_X, ''MANGO''), (slot_Y, ''ME''), (slot_W, ''NOTE''), (slot_Z, ''ON'')] =
     Inr True"
proof -
  have run: "map_sum id fst (solve 5 comb (init comb) False) =
     Inr (Some [(slot_X, ''MANGO''), (slot_Y, ''ME''), (slot_W, ''NOTE''), (slot_Z, ''ON'')])"
    by code_simp
  from solve_sound [OF run] run show ?thesis by blast
qed

end
